theory Spec2Isabelle
  imports Main "HOL-Library.Word" "HOL-Library.List_Lexorder"
begin

section \<open>JavaScript values and strings\<close>

text \<open>
  A JavaScript string is a sequence of UTF-16 code units. String literals of
  \<^verbatim>\<open>serve.js\<close> are ASCII and are written with \<open>js\<close>.
\<close>

type_synonym jschar = "16 word"
type_synonym jsstring = "jschar list"

definition js :: "string \<Rightarrow> jsstring" where
  "js s = map (\<lambda>c. of_nat (of_char c)) s"

text \<open>
  The values that occur in the fields of a parsed log name: a capture of a
  regular expression is a string or \<^verbatim>\<open>undefined\<close>, and
  \<^verbatim>\<open>m[4] || null\<close> is a string or \<^verbatim>\<open>null\<close>.
\<close>

datatype jsval = Undefined | Null | Str jsstring

fun truthy :: "jsval \<Rightarrow> bool" where
  "truthy Undefined = False"
| "truthy Null = False"
| "truthy (Str s) = (s \<noteq> [])"

text \<open>\<^verbatim>\<open>ToString\<close>, as applied by a template literal \<^verbatim>\<open>${v}\<close>.\<close>

fun toString :: "jsval \<Rightarrow> jsstring" where
  "toString Undefined = js ''undefined''"
| "toString Null = js ''null''"
| "toString (Str s) = s"

text \<open>\<^verbatim>\<open>a || b\<close>\<close>

definition jsOr :: "jsval \<Rightarrow> jsval \<Rightarrow> jsval" where
  "jsOr a b = (if truthy a then a else b)"

subsection \<open>Methods of \<^verbatim>\<open>String.prototype\<close>\<close>

definition startsWith :: "jsstring \<Rightarrow> jsstring \<Rightarrow> bool" where
  "startsWith s p = (take (length p) s = p)"

definition endsWith :: "jsstring \<Rightarrow> jsstring \<Rightarrow> bool" where
  "endsWith s p = (length p \<le> length s \<and> drop (length s - length p) s = p)"

text \<open>\<^verbatim>\<open>StringIndexOf(s, p, 0)\<close>: the first position where \<open>p\<close> occurs in \<open>s\<close>.\<close>

fun indexOf :: "jsstring \<Rightarrow> jsstring \<Rightarrow> nat option" where
  "indexOf [] p = (if p = [] then Some 0 else None)"
| "indexOf (c # cs) p =
     (if startsWith (c # cs) p then Some 0 else map_option Suc (indexOf cs p))"

text \<open>
  \<^verbatim>\<open>GetSubstitution\<close> for a string pattern (no captures, no named groups):
  in the replacement text \<^verbatim>\<open>$$\<close> stands for a dollar sign, \<^verbatim>\<open>$&\<close> for the
  matched text, \<^verbatim>\<open>$`\<close> for the text before the match and \<^verbatim>\<open>$'\<close> for the
  text after it. A dollar sign followed by anything else (a digit or
  \<^verbatim>\<open><\<close> included, there being no captures) is copied as it is.
\<close>

fun getSubstitution :: "jsstring \<Rightarrow> jsstring \<Rightarrow> jsstring \<Rightarrow> jsstring \<Rightarrow> jsstring" where
  "getSubstitution matched preceding following [] = []"
| "getSubstitution matched preceding following [c] = [c]"
| "getSubstitution matched preceding following (c # d # t) =
     (if c = 0x24 then
        (if d = 0x24 then 0x24 # getSubstitution matched preceding following t
         else if d = 0x26 then matched @ getSubstitution matched preceding following t
         else if d = 0x60 then preceding @ getSubstitution matched preceding following t
         else if d = 0x27 then following @ getSubstitution matched preceding following t
         else c # getSubstitution matched preceding following (d # t))
      else c # getSubstitution matched preceding following (d # t))"

text \<open>
  \<^verbatim>\<open>s.replace(p, r)\<close> with a string pattern \<open>p\<close> and a string \<open>r\<close>: only the
  first occurrence of \<open>p\<close> is replaced, by the substitution of \<open>r\<close>.
\<close>

definition replaceString :: "jsstring \<Rightarrow> jsstring \<Rightarrow> jsstring \<Rightarrow> jsstring" where
  "replaceString s p r =
     (case indexOf s p of
        None \<Rightarrow> s
      | Some pos \<Rightarrow>
          (let preceding = take pos s;
               following = drop (pos + length p) s
           in preceding @ getSubstitution p preceding following r @ following))"

text \<open>
  \<^verbatim>\<open>s.replace(/c/g, r)\<close> for a single-character pattern and a replacement
  text without dollar signs: every occurrence of \<open>c\<close> is replaced.
\<close>

definition replaceAllChar :: "jschar \<Rightarrow> jsstring \<Rightarrow> jsstring \<Rightarrow> jsstring" where
  "replaceAllChar c r s = concat (map (\<lambda>x. if x = c then r else [x]) s)"

text \<open>
  \<^verbatim>\<open>s.trim()\<close> removes white space and line terminators from both ends:
  TAB, VT, FF, SP, NBSP, ZWNBSP, the space separators of Unicode, and LF, CR,
  LS, PS.
\<close>

definition isWhiteSpace :: "jschar \<Rightarrow> bool" where
  "isWhiteSpace c =
     (c = 0x09 \<or> c = 0x0A \<or> c = 0x0B \<or> c = 0x0C \<or> c = 0x0D \<or> c = 0x20 \<or>
      c = 0xA0 \<or> c = 0x1680 \<or> (0x2000 \<le> c \<and> c \<le> 0x200A) \<or>
      c = 0x2028 \<or> c = 0x2029 \<or> c = 0x202F \<or> c = 0x205F \<or> c = 0x3000 \<or>
      c = 0xFEFF)"

definition trim :: "jsstring \<Rightarrow> jsstring" where
  "trim s = rev (dropWhile isWhiteSpace (rev (dropWhile isWhiteSpace s)))"

text \<open>\<^verbatim>\<open>parts.join(sep)\<close>\<close>

fun join :: "jsstring \<Rightarrow> jsstring list \<Rightarrow> jsstring" where
  "join sep [] = []"
| "join sep [x] = x"
| "join sep (x # y # ys) = x @ sep @ join sep (y # ys)"

section \<open>Regular expressions\<close>

text \<open>
  The fragment of ECMAScript regular expressions that the pattern of
  \<^verbatim>\<open>parseLogName\<close> is written in (no flags): single-character atoms, a
  quantifier on an atom, sequence, capturing group, optional non-capturing
  group, and the assertions \<^verbatim>\<open>^\<close> and \<^verbatim>\<open>$\<close>.
\<close>

datatype atom = Lit jschar | ClassD | ClassW | AnyChar

fun atomMatches :: "atom \<Rightarrow> jschar \<Rightarrow> bool" where
  "atomMatches (Lit a) c = (c = a)"
| "atomMatches ClassD c = (0x30 \<le> c \<and> c \<le> 0x39)"
| "atomMatches ClassW c =
     ((0x61 \<le> c \<and> c \<le> 0x7A) \<or> (0x41 \<le> c \<and> c \<le> 0x5A) \<or>
      (0x30 \<le> c \<and> c \<le> 0x39) \<or> c = 0x5F)"
| "atomMatches AnyChar c = (c \<noteq> 0x0A \<and> c \<noteq> 0x0D \<and> c \<noteq> 0x2028 \<and> c \<noteq> 0x2029)"

datatype regex =
    Empty
  | Atom atom
  | Quant atom nat "nat option" bool
  | Seq regex regex
  | Group nat regex
  | Opt regex
  | Bol
  | Eol

text \<open>
  A match state is the input that is still to be read and the captures. A
  matcher returns the states it can end in, in the order in which the
  backtracking matcher of ECMAScript tries them; the first state is the
  result of the match.
\<close>

type_synonym mstate = "jsstring \<times> (nat \<Rightarrow> jsval)"

text \<open>
  \<^verbatim>\<open>RepeatMatcher\<close> for an atom: \<open>Quant a mn mx g\<close> is the atom repeated at
  least \<open>mn\<close> and at most \<open>mx\<close> times (\<open>None\<close> is no bound), greedy when \<open>g\<close>.
\<close>

fun repeatMatcher :: "atom \<Rightarrow> nat \<Rightarrow> nat option \<Rightarrow> bool \<Rightarrow> jsstring \<Rightarrow> jsstring list" where
  "repeatMatcher a mn mx g [] =
     (if mx = Some 0 then [[]] else if mn \<noteq> 0 then [] else [[]])"
| "repeatMatcher a mn mx g (c # cs) =
     (if mx = Some 0 then [c # cs]
      else
        (let m = (if atomMatches a c
                  then repeatMatcher a (mn - 1) (map_option (\<lambda>k. k - 1) mx) g cs
                  else [])
         in if mn \<noteq> 0 then m else if \<not> g then (c # cs) # m else m @ [c # cs]))"

fun groupsOf :: "regex \<Rightarrow> nat set" where
  "groupsOf Empty = {}"
| "groupsOf (Atom a) = {}"
| "groupsOf (Quant a mn mx g) = {}"
| "groupsOf (Seq r1 r2) = groupsOf r1 \<union> groupsOf r2"
| "groupsOf (Group k r) = insert k (groupsOf r)"
| "groupsOf (Opt r) = groupsOf r"
| "groupsOf Bol = {}"
| "groupsOf Eol = {}"

text \<open>
  The first argument of \<open>matcher\<close> is the length of the whole input:
  \<^verbatim>\<open>^\<close> holds where nothing has been read. An optional group clears its
  captures before it is tried, and an iteration that reads nothing is
  rejected.
\<close>

fun matcher :: "nat \<Rightarrow> regex \<Rightarrow> mstate \<Rightarrow> mstate list" where
  "matcher n Empty x = [x]"
| "matcher n (Atom a) (s, cap) =
     (case s of [] \<Rightarrow> [] | c # cs \<Rightarrow> if atomMatches a c then [(cs, cap)] else [])"
| "matcher n (Quant a mn mx g) (s, cap) =
     map (\<lambda>s'. (s', cap)) (repeatMatcher a mn mx g s)"
| "matcher n (Seq r1 r2) x = concat (map (matcher n r2) (matcher n r1 x))"
| "matcher n (Group k r) (s, cap) =
     map (\<lambda>(s', cap'). (s', cap'(k := Str (take (length s - length s') s))))
       (matcher n r (s, cap))"
| "matcher n (Opt r) (s, cap) =
     filter (\<lambda>(s', cap'). length s' \<noteq> length s)
       (matcher n r (s, (\<lambda>k. if k \<in> groupsOf r then Undefined else cap k)))
     @ [(s, cap)]"
| "matcher n Bol (s, cap) = (if length s = n then [(s, cap)] else [])"
| "matcher n Eol (s, cap) = (if s = [] then [(s, cap)] else [])"

text \<open>
  \<^verbatim>\<open>S.match(R)\<close> for a pattern without the \<^verbatim>\<open>g\<close> flag is
  \<^verbatim>\<open>RegExpBuiltinExec\<close>: the match is tried at the positions
  \<open>0, 1, \<dots>, length S\<close> in turn; the result is \<^verbatim>\<open>null\<close> (\<open>None\<close>) when all
  fail, and otherwise the array of the first success, whose element 0 is the
  matched text.
\<close>

definition regExpExec :: "regex \<Rightarrow> jsstring \<Rightarrow> (nat \<Rightarrow> jsval) option" where
  "regExpExec r S =
     (case concat (map (\<lambda>i. matcher (length S) (Group 0 r) (drop i S, (\<lambda>k. Undefined)))
                     [0 ..< Suc (length S)]) of
        [] \<Rightarrow> None
      | (s, cap) # rest \<Rightarrow> Some cap)"

definition lit :: "string \<Rightarrow> regex" where
  "lit s = foldr (\<lambda>c r. Seq (Atom (Lit (of_nat (of_char c)))) r) s Empty"

definition seqs :: "regex list \<Rightarrow> regex" where
  "seqs rs = foldr Seq rs Empty"

section \<open>serve.js\<close>

subsection \<open>escapeHtml\<close>

definition escapeHtml :: "jsstring \<Rightarrow> jsstring" where
  "escapeHtml text =
     replaceAllChar 0x22 (js ''&quot;'')
       (replaceAllChar 0x3E (js ''&gt;'')
         (replaceAllChar 0x3C (js ''&lt;'')
           (replaceAllChar 0x26 (js ''&amp;'') text)))"

subsection \<open>parseLogName\<close>

text \<open>
  \<^verbatim>\<open>/^(\d{4}-\d{2}-\d{2})-(?:(\d{4})-)?(\w+?)(?:-subagent-(.+)-(\w+))?$/\<close>
\<close>

definition dateRe :: regex where
  "dateRe = seqs [Quant ClassD 4 (Some 4) True, Atom (Lit 0x2D),
                  Quant ClassD 2 (Some 2) True, Atom (Lit 0x2D),
                  Quant ClassD 2 (Some 2) True]"

definition timeRe :: regex where
  "timeRe = seqs [Group 2 (Quant ClassD 4 (Some 4) True), Atom (Lit 0x2D)]"

definition subagentRe :: regex where
  "subagentRe = seqs [lit ''-subagent-'', Group 4 (Quant AnyChar 1 None True),
                      Atom (Lit 0x2D), Group 5 (Quant ClassW 1 None True)]"

definition logNameRe :: regex where
  "logNameRe = seqs [Bol, Group 1 dateRe, Atom (Lit 0x2D), Opt timeRe,
                     Group 3 (Quant ClassW 1 None False), Opt subagentRe, Eol]"

record logName =
  raw :: jsval
  date :: jsval
  time :: jsval
  session :: jsval
  agentType :: jsval
  agentId :: jsval

definition parseLogName :: "jsstring \<Rightarrow> logName" where
  "parseLogName filename =
     (let name = replaceString filename (js ''.md'') [] in
      case regExpExec logNameRe name of
        None \<Rightarrow>
          \<lparr>raw = Str name, date = Str [], time = Str [], session = Str [],
           agentType = Null, agentId = Null\<rparr>
      | Some m \<Rightarrow>
          (let timePart = m 2 in
           \<lparr>raw = Str name,
            date = m 1,
            time = (if truthy timePart
                    then Str (take 2 (toString timePart) @ js '':'' @ drop 2 (toString timePart))
                    else Str []),
            session = m 3,
            agentType = jsOr (m 4) Null,
            agentId = jsOr (m 5) Null\<rparr>))"

subsection \<open>The grammar of the specification\<close>

text \<open>
  The grammar of log names as the specification words it, for comparison with
  the pattern: a name is a date, a dash, optionally a time and a dash, a
  session, and optionally \<^verbatim>\<open>-subagent-\<close>, an agent type, a dash and an agent
  id. The date is 4 digits, a dash, 2 digits, a dash and 2 digits; the time
  is 4 digits; the session and the agent id are one or more word characters;
  the agent type is one or more characters.
\<close>

definition specGrammar :: "jsstring \<Rightarrow> bool" where
  "specGrammar name =
     (\<exists>y m d tm sess sub.
        name = (y @ 0x2D # m @ 0x2D # d) @ 0x2D # tm @ sess @ sub \<and>
        length y = 4 \<and> length m = 2 \<and> length d = 2 \<and>
        list_all (atomMatches ClassD) y \<and> list_all (atomMatches ClassD) m \<and>
        list_all (atomMatches ClassD) d \<and>
        (tm = [] \<or> (\<exists>t. tm = t @ [0x2D] \<and> length t = 4 \<and> list_all (atomMatches ClassD) t)) \<and>
        sess \<noteq> [] \<and> list_all (atomMatches ClassW) sess \<and>
        (sub = [] \<or>
         (\<exists>a i. sub = js ''-subagent-'' @ a @ 0x2D # i \<and> a \<noteq> [] \<and> i \<noteq> [] \<and>
                list_all (atomMatches ClassW) i)))"

subsection \<open>The templates\<close>

text \<open>
  The two template literals, given by their lines; a template is its lines
  joined by LF.
\<close>

definition htmlTemplateLines :: "string list" where
  \<open>htmlTemplateLines =
     [''<!DOCTYPE html>'',
      ''<html lang="en">'',
      ''<head>'',
      ''<meta charset="utf-8">'',
      ''<meta name="viewport" content="width=device-width, initial-scale=1">'',
      ''<title>TITLE</title>'',
      ''<link rel="stylesheet" href="https://cdn.jsdelivr.net/npm/github-markdown-css@5/github-markdown-dark.min.css">'',
      ''<script src="https://cdn.jsdelivr.net/npm/marked/marked.min.js"></script>'',
      ''<style>'',
      ''  body {'',
      ''    background: #0d1117;'',
      ''    color: #e6edf3;'',
      ''    max-width: 960px;'',
      ''    margin: 0 auto;'',
      ''    padding: 2rem 1rem;'',
      ''    font-family: -apple-system, BlinkMacSystemFont, "Segoe UI", Helvetica, Arial, sans-serif;'',
      ''  }'',
      ''  .markdown-body {'',
      ''    background: transparent;'',
      ''  }'',
      ''  .markdown-body pre {'',
      ''    background: #161b22;'',
      ''  }'',
      ''  .markdown-body code {'',
      ''    background: #161b22;'',
      ''  }'',
      ''  nav { margin-bottom: 1.5rem; }'',
      ''  nav a { color: #58a6ff; text-decoration: none; }'',
      ''  nav a:hover { text-decoration: underline; }'',
      ''  #content { display: none; }'',
      ''</style>'',
      ''</head>'',
      ''<body>'',
      ''<nav><a href="/">&larr; All sessions</a></nav>'',
      ''<div id="raw" class="markdown-body"></div>'',
      ''<pre id="content">CONTENT</pre>'',
      ''<script>'',
      ''  const md = document.getElementById('content').textContent;'',
      ''  document.getElementById('raw').innerHTML = marked.parse(md);'',
      ''</script>'',
      ''</body>'',
      ''</html>'']\<close>

definition HTML_TEMPLATE :: jsstring where
  "HTML_TEMPLATE = join [0x0A] (map js htmlTemplateLines)"

definition indexTemplateLines :: "string list" where
  \<open>indexTemplateLines =
     [''<!DOCTYPE html>'',
      ''<html lang="en">'',
      ''<head>'',
      ''<meta charset="utf-8">'',
      ''<meta name="viewport" content="width=device-width, initial-scale=1">'',
      ''<title>Session Logs</title>'',
      ''<style>'',
      ''  body {'',
      ''    background: #0d1117;'',
      ''    color: #e6edf3;'',
      ''    max-width: 960px;'',
      ''    margin: 0 auto;'',
      ''    padding: 2rem 1rem;'',
      ''    font-family: -apple-system, BlinkMacSystemFont, "Segoe UI", Helvetica, Arial, sans-serif;'',
      ''  }'',
      ''  h1 { border-bottom: 1px solid #30363d; padding-bottom: 0.5rem; }'',
      ''  .session {'',
      ''    padding: 0.75rem 0;'',
      ''    border-bottom: 1px solid #21262d;'',
      ''    display: flex;'',
      ''    justify-content: space-between;'',
      ''    align-items: center;'',
      ''  }'',
      ''  .session-name {'',
      ''    font-family: monospace;'',
      ''    font-size: 0.95rem;'',
      ''  }'',
      ''  a { color: #58a6ff; text-decoration: none; }'',
      ''  a:hover { text-decoration: underline; }'',
      ''  .links { font-size: 0.85rem; }'',
      ''  .links a { margin-left: 1rem; }'',
      ''  .subagent { opacity: 0.7; font-size: 0.85rem; margin-left: 0.5rem; }'',
      ''  .empty { color: #8b949e; font-style: italic; }'',
      ''</style>'',
      ''</head>'',
      ''<body>'',
      ''<h1>Session Logs</h1>'',
      ''ENTRIES'',
      ''</body>'',
      ''</html>'']\<close>

definition INDEX_TEMPLATE :: jsstring where
  "INDEX_TEMPLATE = join [0x0A] (map js indexTemplateLines)"

subsection \<open>buildIndex\<close>

text \<open>
  What the handler sees of the file system. \<open>readdirSync e\<close> is the outcome of
  \<^verbatim>\<open>fs.readdirSync(logDir)\<close>: the names in the log directory, or \<open>None\<close>
  when the call throws. \<open>readFileSync e name\<close> is the outcome of
  \<^verbatim>\<open>fs.readFileSync(path.join(args.dir, name), "utf-8")\<close>: the decoded
  text of the file, or \<open>None\<close> when the call throws.
\<close>

record env =
  readdirSync :: "jsstring list option"
  readFileSync :: "jsstring \<Rightarrow> jsstring option"

text \<open>
  The listed files: filtered, then \<^verbatim>\<open>files.sort().reverse()\<close>. The default
  order of \<^verbatim>\<open>sort\<close> on strings is the lexicographic order of the code
  units, a shorter string before its extensions.
\<close>

definition listFiles :: "env \<Rightarrow> jsstring list" where
  "listFiles e =
     rev (sort (case readdirSync e of
                  None \<Rightarrow> []
                | Some names \<Rightarrow>
                    filter (\<lambda>f. endsWith f (js ''.md'') \<and> \<not> startsWith f (js ''.'')) names))"

definition entryLabel :: "logName \<Rightarrow> jsstring" where
  \<open>entryLabel meta =
     (let label =
        (if truthy (date meta)
         then (let dateTime = trim (toString (date meta) @ js '' '' @ toString (time meta))
               in dateTime @ js '' &mdash; '' @ toString (session meta))
         else toString (raw meta))
      in if truthy (agentType meta)
         then label @ js ''<span class="subagent">'' @ toString (agentType meta) @ js '' '' @
              toString (jsOr (agentId meta) (Str [])) @ js ''</span>''
         else label)\<close>

definition indexEntry :: "jsstring \<Rightarrow> jsstring" where
  \<open>indexEntry f =
     (let meta = parseLogName f;
          label = entryLabel meta;
          slug = replaceString f (js ''.md'') []
      in js ''<div class="session">'' @
         js ''  <span class="session-name">'' @ label @ js ''</span>'' @
         js ''  <span class="links">'' @
         js ''    <a href="/'' @ slug @ js ''">view</a>'' @
         js ''    <a href="/'' @ f @ js ''">raw</a>'' @
         js ''  </span>'' @
         js ''</div>'')\<close>

definition buildIndex :: "env \<Rightarrow> jsstring" where
  \<open>buildIndex e =
     (let files = listFiles e in
      if files = []
      then replaceString INDEX_TEMPLATE (js ''ENTRIES'')
             (js ''<p class="empty">No session logs found.</p>'')
      else replaceString INDEX_TEMPLATE (js ''ENTRIES'')
             (join [0x0A] (map indexEntry files)))\<close>

subsection \<open>The request handler\<close>

datatype error = URIError

fun hexDigit :: "jschar \<Rightarrow> nat option" where
  "hexDigit c =
     (if 0x30 \<le> c \<and> c \<le> 0x39 then Some (unat c - 0x30)
      else if 0x41 \<le> c \<and> c \<le> 0x46 then Some (unat c - 0x41 + 10)
      else if 0x61 \<le> c \<and> c \<le> 0x66 then Some (unat c - 0x61 + 10)
      else None)"

definition parseHexOctet :: "jschar \<Rightarrow> jschar \<Rightarrow> nat option" where
  "parseHexOctet h l =
     (case hexDigit h of
        None \<Rightarrow> None
      | Some a \<Rightarrow> (case hexDigit l of None \<Rightarrow> None | Some b \<Rightarrow> Some (16 * a + b)))"

text \<open>The number of leading 1 bits of an octet (5 stands for more than 4).\<close>

definition leadingOnes :: "nat \<Rightarrow> nat" where
  "leadingOnes b =
     (if b < 0x80 then 0 else if b < 0xC0 then 1 else if b < 0xE0 then 2
      else if b < 0xF0 then 3 else if b < 0xF8 then 4 else 5)"

text \<open>Reads \<open>j\<close> further escapes \<^verbatim>\<open>%XX\<close>, the continuation octets.\<close>

fun continuationOctets :: "nat \<Rightarrow> jsstring \<Rightarrow> (nat list \<times> jsstring) option" where
  "continuationOctets 0 s = Some ([], s)"
| "continuationOctets (Suc j) (p # h # l # s) =
     (if p \<noteq> 0x25 then None
      else (case parseHexOctet h l of
              None \<Rightarrow> None
            | Some b \<Rightarrow>
                (case continuationOctets j s of
                   None \<Rightarrow> None
                 | Some (bs, s') \<Rightarrow> Some (b # bs, s'))))"
| "continuationOctets (Suc j) s = None"

text \<open>
  The code point that an octet \<open>B\<close> and the continuation octets \<open>bs\<close> encode in UTF-8, when they are a valid
  encoding: continuation octets are \<open>10xxxxxx\<close>, the encoding is the shortest
  one, and the code point is neither a surrogate nor beyond \<open>0x10FFFF\<close>.
\<close>

definition utf8CodePoint :: "nat \<Rightarrow> nat list \<Rightarrow> nat option" where
  "utf8CodePoint B bs =
     (if \<not> list_all (\<lambda>b. 0x80 \<le> b \<and> b < 0xC0) bs then None
      else
        (let n = Suc (length bs);
             v = foldl (\<lambda>a b. 64 * a + b mod 64) (B mod 2 ^ (7 - n)) bs in
         if n = 2 \<and> 0x80 \<le> v then Some v
         else if n = 3 \<and> 0x800 \<le> v \<and> \<not> (0xD800 \<le> v \<and> v \<le> 0xDFFF) then Some v
         else if n = 4 \<and> 0x10000 \<le> v \<and> v \<le> 0x10FFFF then Some v
         else None))"

definition codePointToString :: "nat \<Rightarrow> jsstring" where
  "codePointToString v =
     (if v < 0x10000 then [of_nat v]
      else [of_nat (0xD800 + (v - 0x10000) div 0x400),
            of_nat (0xDC00 + (v - 0x10000) mod 0x400)])"

lemma continuationOctets_length:
  "continuationOctets j s = Some (bs, s') \<Longrightarrow> length s' \<le> length s"
  by (induction j s arbitrary: bs s' rule: continuationOctets.induct)
    (fastforce split: if_splits option.splits)+

text \<open>
  \<^verbatim>\<open>decodeURIComponent\<close>: the abstract operation \<^verbatim>\<open>Decode\<close> with no
  preserved escapes. It throws a \<^verbatim>\<open>URIError\<close> on an escape that is cut
  short, is not hexadecimal, or is not valid UTF-8.
\<close>

function decodeURIComponent :: "jsstring \<Rightarrow> error + jsstring" where
  "decodeURIComponent [] = Inr []"
| "decodeURIComponent (c # s) =
     (if c \<noteq> 0x25 then
        (case decodeURIComponent s of Inl err \<Rightarrow> Inl err | Inr R \<Rightarrow> Inr (c # R))
      else
        (case s of
           h # l # s1 \<Rightarrow>
             (case parseHexOctet h l of
                None \<Rightarrow> Inl URIError
              | Some B \<Rightarrow>
                  (let n = leadingOnes B in
                   if n = 0 then
                     (case decodeURIComponent s1 of
                        Inl err \<Rightarrow> Inl err
                      | Inr R \<Rightarrow> Inr (of_nat B # R))
                   else if n = 1 \<or> n > 4 then Inl URIError
                   else
                     (case continuationOctets (n - 1) s1 of
                        None \<Rightarrow> Inl URIError
                      | Some (bs, s2) \<Rightarrow>
                          (case utf8CodePoint B bs of
                             None \<Rightarrow> Inl URIError
                           | Some V \<Rightarrow>
                               (case decodeURIComponent s2 of
                                  Inl err \<Rightarrow> Inl err
                                | Inr R \<Rightarrow> Inr (codePointToString V @ R))))))
         | _ \<Rightarrow> Inl URIError))"
  by pat_completeness auto
termination
  by (relation "measure length") (auto dest: continuationOctets_length)

text \<open>
  \<^verbatim>\<open>path.basename\<close> (POSIX): trailing slashes are dropped, and what follows
  the last remaining slash is returned.
\<close>

definition basename :: "jsstring \<Rightarrow> jsstring" where
  "basename p = rev (takeWhile (\<lambda>c. c \<noteq> 0x2F) (dropWhile (\<lambda>c. c = 0x2F) (rev p)))"

text \<open>
  \<^verbatim>\<open>Buffer.from(body, "utf-8")\<close>: the UTF-8 encoding of a string; a surrogate
  pair is one code point, a lone surrogate is encoded as U+FFFD.
\<close>

fun utf8Encode :: "jsstring \<Rightarrow> 8 word list" where
  "utf8Encode [] = []"
| "utf8Encode [c] =
     (let v = unat c in
      if v < 0x80 then [of_nat v]
      else if v < 0x800 then [of_nat (0xC0 + v div 0x40), of_nat (0x80 + v mod 0x40)]
      else if 0xD800 \<le> v \<and> v \<le> 0xDFFF then [0xEF, 0xBF, 0xBD]
      else [of_nat (0xE0 + v div 0x1000), of_nat (0x80 + v div 0x40 mod 0x40),
            of_nat (0x80 + v mod 0x40)])"
| "utf8Encode (c # d # s) =
     (let v = unat c; w = unat d in
      if v < 0x80 then of_nat v # utf8Encode (d # s)
      else if v < 0x800 then
        of_nat (0xC0 + v div 0x40) # of_nat (0x80 + v mod 0x40) # utf8Encode (d # s)
      else if 0xD800 \<le> v \<and> v \<le> 0xDBFF \<and> 0xDC00 \<le> w \<and> w \<le> 0xDFFF then
        (let u = 0x10000 + (v - 0xD800) * 0x400 + (w - 0xDC00) in
         of_nat (0xF0 + u div 0x40000) # of_nat (0x80 + u div 0x1000 mod 0x40) #
         of_nat (0x80 + u div 0x40 mod 0x40) # of_nat (0x80 + u mod 0x40) # utf8Encode s)
      else if 0xD800 \<le> v \<and> v \<le> 0xDFFF then
        0xEF # 0xBF # 0xBD # utf8Encode (d # s)
      else
        of_nat (0xE0 + v div 0x1000) # of_nat (0x80 + v div 0x40 mod 0x40) #
        of_nat (0x80 + v mod 0x40) # utf8Encode (d # s))"

record response =
  statusCode :: nat
  contentType :: jsstring
  contentLength :: nat
  accessControlAllowOrigin :: jsstring
  payload :: "8 word list"

definition respond :: "nat \<Rightarrow> jsstring \<Rightarrow> jsstring \<Rightarrow> response" where
  "respond code body ctype =
     (let buf = utf8Encode body in
      \<lparr>statusCode = code, contentType = ctype, contentLength = length buf,
       accessControlAllowOrigin = js ''*'', payload = buf\<rparr>)"

text \<open>
  The callback of \<^verbatim>\<open>http.createServer\<close>, for the request URL \<open>url\<close>. The
  result is the response written, or the exception that leaves the callback
  uncaught (the reads of the file system are inside
  \<^verbatim>\<open>try\<close>/\<^verbatim>\<open>catch\<close>, the decoding of the URL is not).
\<close>

definition handler :: "env \<Rightarrow> jsstring \<Rightarrow> error + response" where
  "handler e url =
     (case decodeURIComponent (if url = [] then js ''/'' else url) of
        Inl err \<Rightarrow> Inl err
      | Inr decoded \<Rightarrow>
          (let urlPath = dropWhile (\<lambda>c. c = 0x2F) decoded in
           if urlPath = [] then Inr (respond 200 (buildIndex e) (js ''text/html''))
           else if endsWith urlPath (js ''.md'') then
             (case readFileSync e (basename urlPath) of
                Some content \<Rightarrow> Inr (respond 200 content (js ''text/plain; charset=utf-8''))
              | None \<Rightarrow> Inr (respond 404 (js ''Not found'') (js ''text/plain'')))
           else
             (case readFileSync e (basename urlPath @ js ''.md'') of
                Some content \<Rightarrow>
                  (let title = escapeHtml (basename urlPath);
                       body = replaceString
                                (replaceString HTML_TEMPLATE (js ''TITLE'') title)
                                (js ''CONTENT'') (escapeHtml content)
                   in Inr (respond 200 body (js ''text/html'')))
              | None \<Rightarrow> Inr (respond 404 (js ''Not found'') (js ''text/plain'')))))"

subsection \<open>Example directories\<close>

text \<open>
  A log directory with a session log whose text is \<^verbatim>\<open># Hello <world>\<close>, a
  hidden file and a file whose name has an angle bracket; a log directory
  with one file, whose name has a dollar sign followed by an ampersand; and a
  log directory with one file, whose name has \<^verbatim>\<open>.md\<close> twice.
\<close>

definition exampleDir :: env where
  "exampleDir =
     \<lparr>readdirSync = Some [js ''2024-01-15-1430-refactor.md'', js ''.hidden.md'', js ''a<b.md''],
      readFileSync =
        (\<lambda>name. if name = js ''2024-01-15-1430-refactor.md'' then Some (js ''# Hello <world>'')
                else if name = js ''.hidden.md'' then Some (js ''secret'')
                else if name = js ''a<b.md'' then Some (js ''notes'')
                else None)\<rparr>"

definition dollarDir :: env where
  "dollarDir = \<lparr>readdirSync = Some [js ''$&.md''], readFileSync = (\<lambda>name. None)\<rparr>"

definition interiorDir :: env where
  "interiorDir =
     \<lparr>readdirSync = Some [js ''a.md.b.md''],
      readFileSync = (\<lambda>name. if name = js ''a.md.b.md'' then Some (js ''text'') else None)\<rparr>"

section \<open>Lemmas\<close>

subsection \<open>Searching and replacing in a string\<close>

lemma startsWith_length:
  assumes "startsWith s p"
  shows "length p \<le> length s"
proof -
  from assms have "length (take (length p) s) = length p"
    by (simp add: startsWith_def)
  then show ?thesis by (simp add: min_def split: if_splits)
qed

lemma startsWith_append_iff:
  "length p \<le> length s \<Longrightarrow> startsWith (s @ t) p = startsWith s p"
  by (simp add: startsWith_def)

lemma startsWith_append:
  "startsWith s p \<Longrightarrow> startsWith (s @ t) p"
  using startsWith_length [of s p] by (simp add: startsWith_def)

lemma indexOf_le: "indexOf s p = Some k \<Longrightarrow> k + length p \<le> length s"
proof (induction s arbitrary: k)
  case Nil
  then show ?case by (simp split: if_splits)
next
  case (Cons c cs)
  then show ?case
    using startsWith_length [of "c # cs" p] by (auto split: if_splits)
qed

lemma indexOf_take: "indexOf s p = Some k \<Longrightarrow> take (length p) (drop k s) = p"
proof (induction s arbitrary: k)
  case Nil
  then show ?case by (simp split: if_splits)
next
  case (Cons c cs)
  then show ?case by (auto simp: startsWith_def split: if_splits)
qed

lemma indexOf_split:
  assumes "indexOf s p = Some k"
  shows "s = take k s @ p @ drop (k + length p) s"
proof -
  have "drop k s = take (length p) (drop k s) @ drop (length p) (drop k s)"
    by (simp only: append_take_drop_id)
  then have "drop k s = p @ drop (k + length p) s"
    using indexOf_take [OF assms] by (simp add: add.commute)
  then show ?thesis by (metis append_take_drop_id)
qed

lemma indexOf_absent_char:
  assumes "c \<in> set p" and "c \<notin> set s"
  shows "indexOf s p = None"
proof (cases "indexOf s p")
  case None
  then show ?thesis .
next
  case (Some k)
  from indexOf_split [OF Some] have "set p \<subseteq> set s"
    by (metis Un_iff set_append subsetI)
  with assms show ?thesis by blast
qed

lemma indexOf_Some_append:
  "indexOf s p = Some k \<Longrightarrow> indexOf (s @ t) p = Some k"
proof (induction s arbitrary: k)
  case Nil
  then show ?case by (cases t) (auto simp: startsWith_def split: if_splits)
next
  case (Cons c cs)
  show ?case
  proof (cases "startsWith (c # cs) p")
    case True
    with Cons.prems startsWith_append [OF True, of t] show ?thesis by simp
  next
    case False
    with Cons.prems obtain k' where k': "indexOf cs p = Some k'" "k = Suc k'" by auto
    from indexOf_le [OF k'(1)] have "length p \<le> length cs" by simp
    then have "\<not> startsWith ((c # cs) @ t) p"
      using False startsWith_append_iff [of p "c # cs" t] by simp
    then show ?thesis using Cons.IH [OF k'(1)] k'(2) by simp
  qed
qed

lemma indexOf_None_append:
  assumes "indexOf s p = None" and "nl \<notin> set p" and "p \<noteq> []"
  shows "indexOf (s @ nl # t) p = map_option (\<lambda>k. k + Suc (length s)) (indexOf t p)"
  using assms(1)
proof (induction s)
  case Nil
  have "\<not> startsWith (nl # t) p"
    using assms(2,3) by (cases p) (auto simp: startsWith_def)
  then show ?case by (simp add: option.map_comp comp_def)
next
  case (Cons c cs)
  then have no: "\<not> startsWith (c # cs) p" and rest: "indexOf cs p = None"
    by (auto split: if_splits)
  have "\<not> startsWith ((c # cs) @ nl # t) p"
  proof
    assume a: "startsWith ((c # cs) @ nl # t) p"
    show False
    proof (cases "length p \<le> length (c # cs)")
      case True
      with a have "startsWith (c # cs) p"
        using startsWith_append_iff [of p "c # cs" "nl # t"] by simp
      with no show False by simp
    next
      case False
      then have "length (c # cs) < length p" by simp
      moreover from a have "p = take (length p) ((c # cs) @ nl # t)" by (simp add: startsWith_def)
      ultimately have "p ! length (c # cs) = nl"
        by (metis nth_take nth_append_length)
      then have "nl \<in> set p" using \<open>length (c # cs) < length p\<close> by (metis nth_mem)
      with assms(2) show False by simp
    qed
  qed
  then show ?case using Cons.IH [OF rest] by (simp add: option.map_comp comp_def)
qed

lemma getSubstitution_plain:
  "0x24 \<notin> set r \<Longrightarrow> getSubstitution m pre fol r = r"
  by (induction m pre fol r rule: getSubstitution.induct) auto

lemma set_replaceString_empty: "set (replaceString f p []) \<subseteq> set f"
  unfolding replaceString_def
  by (auto simp: Let_def split: option.splits dest: in_set_takeD in_set_dropD)

subsection \<open>Lines joined by a separator\<close>

text \<open>
  A pattern without the separator occurs in the joined text only inside a
  line, so a replacement in a template is a replacement in one of its lines.
\<close>

lemma join_Cons: "ys \<noteq> [] \<Longrightarrow> join sep (x # ys) = x @ sep @ join sep ys"
  by (cases ys) auto

lemma set_join: "set (join sep ls) \<subseteq> set sep \<union> \<Union> (set ` set ls)"
  by (induction sep ls rule: join.induct) auto

lemma not_in_join:
  assumes "c \<notin> set sep" and "\<forall>x \<in> set ls. c \<notin> set x"
  shows "c \<notin> set (join sep ls)"
  using assms set_join [of sep ls] by auto

lemma not_in_update:
  assumes "\<forall>x \<in> set ls. c \<notin> set x" and "c \<notin> set y"
  shows "\<forall>x \<in> set (ls[i := y]). c \<notin> set x"
  using assms set_update_subset_insert [of ls i y] by auto

lemma join_member_split:
  "x \<in> set ls \<Longrightarrow> \<exists>pre post. join sep ls = pre @ x @ post"
proof (induction sep ls rule: join.induct)
  case (1 sep)
  then show ?case by simp
next
  case (2 sep y)
  then have "join sep [y] = [] @ x @ []" by simp
  then show ?case by blast
next
  case (3 sep y z zs)
  show ?case
  proof (cases "x = y")
    case True
    then have "join sep (y # z # zs) = [] @ x @ (sep @ join sep (z # zs))" by simp
    then show ?thesis by blast
  next
    case False
    with 3 obtain pre post where "join sep (z # zs) = pre @ x @ post" by auto
    then have "join sep (y # z # zs) = (y @ sep @ pre) @ x @ post" by simp
    then show ?thesis by blast
  qed
qed

lemma indexOf_join_line:
  assumes "i < length ls" and "nl \<notin> set p" and "p \<noteq> []"
    and "\<forall>x \<in> set (take i ls). indexOf x p = None"
    and "indexOf (ls ! i) p = Some k"
  shows "\<exists>pos. indexOf (join [nl] ls) p = Some pos \<and>
           (\<forall>X. take pos (join [nl] ls) @ X @ drop (pos + length p) (join [nl] ls) =
                join [nl] (ls[i := take k (ls ! i) @ X @ drop (k + length p) (ls ! i)]))"
  using assms(1,4,5)
proof (induction ls arbitrary: i)
  case Nil
  then show ?case by simp
next
  case (Cons l rest)
  show ?case
  proof (cases i)
    case 0
    with Cons.prems have k: "indexOf l p = Some k" by simp
    from indexOf_le [OF k] have le: "k + length p \<le> length l" .
    show ?thesis
    proof (cases rest)
      case Nil
      with 0 k show ?thesis by simp
    next
      case (Cons l2 rest2)
      then have j: "join [nl] (l # rest) = l @ nl # join [nl] rest" by simp
      have "indexOf (join [nl] (l # rest)) p = Some k"
        unfolding j by (rule indexOf_Some_append [OF k])
      moreover have "take k (join [nl] (l # rest)) @ X @ drop (k + length p) (join [nl] (l # rest))
          = join [nl] ((l # rest)[i := take k ((l # rest) ! i) @ X @ drop (k + length p) ((l # rest) ! i)])" for X
        using le 0 Cons by simp
      ultimately show ?thesis by blast
    qed
  next
    case (Suc i')
    with Cons.prems have i': "i' < length rest" and none: "indexOf l p = None"
      and pre: "\<forall>x \<in> set (take i' rest). indexOf x p = None"
      and k: "indexOf (rest ! i') p = Some k"
      by simp_all
    from Cons.IH [OF i' pre k] obtain pos where
      pos: "indexOf (join [nl] rest) p = Some pos"
      and eq: "\<And>X. take pos (join [nl] rest) @ X @ drop (pos + length p) (join [nl] rest) =
                join [nl] (rest[i' := take k (rest ! i') @ X @ drop (k + length p) (rest ! i')])"
      by blast
    from i' have ne: "rest \<noteq> []" by auto
    then have j: "join [nl] (l # rest) = l @ nl # join [nl] rest" by (simp add: join_Cons)
    have ne': "rest[i' := y] \<noteq> []" for y using ne by simp
    have "indexOf (join [nl] (l # rest)) p = Some (pos + Suc (length l))"
      unfolding j using indexOf_None_append [OF none assms(2,3)] pos by simp
    moreover have "take (pos + Suc (length l)) (join [nl] (l # rest)) @ X @
            drop (pos + Suc (length l) + length p) (join [nl] (l # rest))
          = join [nl] ((l # rest)[i := take k ((l # rest) ! i) @ X @ drop (k + length p) ((l # rest) ! i)])" for X
    proof -
      have "take (pos + Suc (length l)) (l @ nl # join [nl] rest) = l @ nl # take pos (join [nl] rest)"
        by simp
      moreover have "drop (pos + Suc (length l) + length p) (l @ nl # join [nl] rest) =
                      drop (pos + length p) (join [nl] rest)"
        by (simp add: add.commute add.left_commute)
      ultimately show ?thesis
        unfolding j using eq [of X] Suc by (simp add: join_Cons ne)
    qed
    ultimately show ?thesis by blast
  qed
qed

lemma replaceString_join_line:
  assumes "i < length ls" and "nl \<notin> set p" and "c \<in> set p"
    and "\<forall>x \<in> set (take i ls). c \<notin> set x"
    and "indexOf (ls ! i) p = Some k"
  shows "\<exists>pre fol. replaceString (join [nl] ls) p r =
           join [nl] (ls[i := take k (ls ! i) @ getSubstitution p pre fol r @
                               drop (k + length p) (ls ! i)])"
proof -
  from assms(3) have ne: "p \<noteq> []" by auto
  from assms(3,4) have none: "\<forall>x \<in> set (take i ls). indexOf x p = None"
    by (simp add: indexOf_absent_char)
  from indexOf_join_line [OF assms(1,2) ne none assms(5)] obtain pos where
    pos: "indexOf (join [nl] ls) p = Some pos"
    and eq: "\<And>X. take pos (join [nl] ls) @ X @ drop (pos + length p) (join [nl] ls) =
                join [nl] (ls[i := take k (ls ! i) @ X @ drop (k + length p) (ls ! i)])"
    by blast
  show ?thesis
    unfolding replaceString_def by (auto simp: pos Let_def eq)
qed

lemma replaceString_template_line:
  assumes "i < length L" and "0x0A \<notin> set p" and "c \<in> set p"
    and "\<forall>x \<in> set (take i (map js L)). c \<notin> set x"
    and "indexOf (js (L ! i)) p = Some k"
    and "0x24 \<notin> set r"
    and "take k (js (L ! i)) @ r @ drop (k + length p) (js (L ! i)) = js new"
  shows "replaceString (join [0x0A] (map js L)) p r = join [0x0A] (map js (L[i := new]))"
proof -
  have i: "i < length (map js L)" using assms(1) by simp
  have n: "map js L ! i = js (L ! i)" using assms(1) by simp
  from replaceString_join_line [OF i assms(2,3,4), of k r] assms(5)
  obtain pre fol where
    "replaceString (join [0x0A] (map js L)) p r =
       join [0x0A] ((map js L)[i := take k (js (L ! i)) @ getSubstitution p pre fol r @
                                      drop (k + length p) (js (L ! i))])"
    unfolding n by blast
  then show ?thesis
    by (simp only: getSubstitution_plain [OF assms(6)] assms(7) map_update)
qed

subsection \<open>The lines of the templates\<close>

lemma index_line: "indexTemplateLines ! 37 = ''ENTRIES'' \<and> length indexTemplateLines = 40"
  by (simp add: indexTemplateLines_def)

lemma index_no_N: "\<forall>x \<in> set (take 37 (map js indexTemplateLines)). 0x4E \<notin> set x"
  by (simp add: indexTemplateLines_def js_def)

lemma index_no_amp: "\<forall>x \<in> set (map js indexTemplateLines). 0x26 \<notin> set x"
  by (simp add: indexTemplateLines_def js_def)

lemma replace_ENTRIES:
  "\<exists>pre fol. replaceString INDEX_TEMPLATE (js ''ENTRIES'') r =
      join [0x0A] ((map js indexTemplateLines)[37 := getSubstitution (js ''ENTRIES'') pre fol r])"
proof -
  have i: "37 < length (map js indexTemplateLines)" by (simp add: index_line)
  have k: "indexOf (map js indexTemplateLines ! 37) (js ''ENTRIES'') = Some 0"
    using i by (simp add: index_line js_def startsWith_def)
  have n: "0x0A \<notin> set (js ''ENTRIES'')" and c: "0x4E \<in> set (js ''ENTRIES'')"
    by (simp_all add: js_def)
  have l: "map js indexTemplateLines ! 37 = js ''ENTRIES''"
    using i by (simp add: index_line)
  from replaceString_join_line [OF i n c index_no_N k, of r]
  show ?thesis
    unfolding INDEX_TEMPLATE_def l by (simp add: js_def)
qed

subsection \<open>Paths without escapes and without slashes\<close>

lemma decode_Cons_plain:
  "c \<noteq> 0x25 \<Longrightarrow>
   decodeURIComponent (c # s) =
     (case decodeURIComponent s of Inl err \<Rightarrow> Inl err | Inr R \<Rightarrow> Inr (c # R))"
  by (subst decodeURIComponent.simps) (simp only: simp_thms if_True)

lemma decode_plain:
  "0x25 \<notin> set s \<Longrightarrow> decodeURIComponent s = Inr s"
proof (induction s)
  case Nil
  show ?case by (simp only: decodeURIComponent.simps)
next
  case (Cons c s)
  then have "c \<noteq> 0x25" and "decodeURIComponent s = Inr s" by auto
  then show ?case by (simp add: decode_Cons_plain del: decodeURIComponent.simps)
qed

lemma dropWhile_none: "\<forall>x \<in> set xs. \<not> P x \<Longrightarrow> dropWhile P xs = xs"
  by (cases xs) auto

lemma basename_plain:
  assumes "0x2F \<notin> set p"
  shows "basename p = p"
proof -
  have "\<forall>x \<in> set (rev p). \<not> x = 0x2F" using assms by auto
  then have d: "dropWhile (\<lambda>c. c = 0x2F) (rev p) = rev p"
    by (rule dropWhile_none)
  have t: "takeWhile (\<lambda>c. c \<noteq> 0x2F) (rev p) = rev p"
    using assms by (auto simp: takeWhile_eq_all_conv)
  show ?thesis unfolding basename_def d t by simp
qed

subsection \<open>What a matcher returns\<close>

lemma repeatMatcher_sound:
  assumes "s' \<in> set (repeatMatcher a mn mx g s)" and "\<And>m. mx = Some m \<Longrightarrow> mn \<le> m"
  shows "\<exists>pre. s = pre @ s' \<and> list_all (atomMatches a) pre \<and> mn \<le> length pre \<and>
               (\<forall>m. mx = Some m \<longrightarrow> length pre \<le> m)"
  using assms
proof (induction s arbitrary: mn mx)
  case Nil
  then show ?case by (auto split: if_splits)
next
  case (Cons c cs)
  show ?case
  proof (cases "mx = Some 0")
    case True
    with Cons.prems show ?thesis by auto
  next
    case False
    let ?mx' = "map_option (\<lambda>k. k - 1) mx"
    have bound: "\<And>m. ?mx' = Some m \<Longrightarrow> mn - 1 \<le> m"
      using Cons.prems(2) by (cases mx) auto
    from Cons.prems(1) False
    consider (stop) "s' = c # cs" "mn = 0"
      | (more) "atomMatches a c" "s' \<in> set (repeatMatcher a (mn - 1) ?mx' g cs)"
      by (auto simp: Let_def split: if_splits)
    then show ?thesis
    proof cases
      case stop
      then show ?thesis by auto
    next
      case more
      from Cons.IH [OF more(2) bound] obtain pre where
        pre: "cs = pre @ s'" "list_all (atomMatches a) pre" "mn - 1 \<le> length pre"
             "\<forall>m. ?mx' = Some m \<longrightarrow> length pre \<le> m"
        by blast
      have "c # cs = (c # pre) @ s'" using pre(1) by simp
      moreover have "list_all (atomMatches a) (c # pre)" using pre(2) more(1) by simp
      moreover have "mn \<le> length (c # pre)" using pre(3) by simp
      moreover have "\<forall>m. mx = Some m \<longrightarrow> length (c # pre) \<le> m"
        using pre(4) False by (cases mx) auto
      ultimately show ?thesis by blast
    qed
  qed
qed

lemma in_matcher_Atom:
  "(s', c') \<in> set (matcher n (Atom a) (s, c)) \<longleftrightarrow> c' = c \<and> (\<exists>ch. s = ch # s' \<and> atomMatches a ch)"
  by (cases s) auto

lemma in_matcher_Quant:
  assumes "(s', c') \<in> set (matcher n (Quant a mn mx g) (s, c))" and "\<And>m. mx = Some m \<Longrightarrow> mn \<le> m"
  shows "c' = c \<and> (\<exists>pre. s = pre @ s' \<and> list_all (atomMatches a) pre \<and> mn \<le> length pre \<and>
               (\<forall>m. mx = Some m \<longrightarrow> length pre \<le> m))"
proof -
  from assms(1) have "c' = c" and "s' \<in> set (repeatMatcher a mn mx g s)" by auto
  with repeatMatcher_sound [OF this(2) assms(2)] show ?thesis by simp
qed

lemma in_matcher_Group:
  "(s', c') \<in> set (matcher n (Group k r) (s, c)) \<longleftrightarrow>
     (\<exists>c0. (s', c0) \<in> set (matcher n r (s, c)) \<and> c' = c0(k := Str (take (length s - length s') s)))"
  by (auto simp: image_iff) force

lemma in_matcher_Opt:
  assumes "(s', c') \<in> set (matcher n (Opt r) (s, c))"
  shows "(s', c') = (s, c) \<or>
         (s', c') \<in> set (matcher n r (s, (\<lambda>k. if k \<in> groupsOf r then Undefined else c k)))"
  using assms by auto

lemma in_matcher_Seq_pair:
  "(s', c') \<in> set (matcher n (Seq r1 r2) x) \<longleftrightarrow>
     (\<exists>s1 c1. (s1, c1) \<in> set (matcher n r1 x) \<and> (s', c') \<in> set (matcher n r2 (s1, c1)))"
  by auto

lemma in_matcher_Empty_pair: "(s', c') \<in> set (matcher n Empty (s, c)) \<longleftrightarrow> s' = s \<and> c' = c"
  by auto

lemma in_matcher_Bol_iff: "(s', c') \<in> set (matcher n Bol (s, c)) \<longleftrightarrow> s' = s \<and> c' = c \<and> length s = n"
  by (auto simp: matcher.simps)

lemma in_matcher_Eol_iff: "(s', c') \<in> set (matcher n Eol (s, c)) \<longleftrightarrow> s' = s \<and> c' = c \<and> s = []"
  by (auto simp: matcher.simps)

lemma in_matcher_exact:
  assumes "(s', c') \<in> set (matcher n (Quant a k (Some k) g) (s, c))"
  shows "c' = c \<and> (\<exists>pre. s = pre @ s' \<and> list_all (atomMatches a) pre \<and> length pre = k)"
  using in_matcher_Quant [OF assms] by fastforce

lemma in_matcher_plus:
  assumes "(s', c') \<in> set (matcher n (Quant a 1 None g) (s, c))"
  shows "c' = c \<and> (\<exists>pre. s = pre @ s' \<and> list_all (atomMatches a) pre \<and> pre \<noteq> [])"
  using in_matcher_Quant [OF assms] by fastforce

declare matcher.simps [simp del]

lemmas parse_eval =
  parseLogName_def regExpExec_def logNameRe_def dateRe_def timeRe_def subagentRe_def
  seqs_def lit_def js_def replaceString_def startsWith_def jsOr_def Let_def matcher.simps

subsection \<open>What the pattern of parseLogName matches\<close>

text \<open>
  Every match of the pattern splits the name into a date, an optional time, a
  session and an optional sub-agent suffix, and the captures are these parts.
\<close>

lemma dateRe_sound:
  assumes "(s', c') \<in> set (matcher n dateRe (s, c))"
  shows "c' = c \<and> (\<exists>y m d. s = (y @ 0x2D # m @ 0x2D # d) @ s' \<and> length y = 4 \<and> length m = 2 \<and>
           length d = 2 \<and> list_all (atomMatches ClassD) y \<and> list_all (atomMatches ClassD) m \<and>
           list_all (atomMatches ClassD) d)"
proof -
  from assms obtain s1 c1 s2 c2 s3 c3 s4 c4 where
    q1: "(s1, c1) \<in> set (matcher n (Quant ClassD 4 (Some 4) True) (s, c))" and
    a1: "(s2, c2) \<in> set (matcher n (Atom (Lit 0x2D)) (s1, c1))" and
    q2: "(s3, c3) \<in> set (matcher n (Quant ClassD 2 (Some 2) True) (s2, c2))" and
    a2: "(s4, c4) \<in> set (matcher n (Atom (Lit 0x2D)) (s3, c3))" and
    q3: "(s', c') \<in> set (matcher n (Quant ClassD 2 (Some 2) True) (s4, c4))"
    unfolding dateRe_def seqs_def by (auto simp: in_matcher_Seq_pair in_matcher_Empty_pair)
  from in_matcher_exact [OF q1] obtain y where
    y: "c1 = c" "s = y @ s1" "list_all (atomMatches ClassD) y" "length y = 4" by blast
  from a1 have s1: "c2 = c1" "s1 = 0x2D # s2" by (auto simp: in_matcher_Atom)
  from in_matcher_exact [OF q2] obtain m where
    m: "c3 = c2" "s2 = m @ s3" "list_all (atomMatches ClassD) m" "length m = 2" by blast
  from a2 have s3: "c4 = c3" "s3 = 0x2D # s4" by (auto simp: in_matcher_Atom)
  from in_matcher_exact [OF q3] obtain d where
    d: "c' = c4" "s4 = d @ s'" "list_all (atomMatches ClassD) d" "length d = 2" by blast
  have "s = (y @ 0x2D # m @ 0x2D # d) @ s'"
    using y(2) s1(2) m(2) s3(2) d(2) by simp
  moreover have "c' = c" using y(1) s1(1) m(1) s3(1) d(1) by simp
  ultimately show ?thesis using y(3,4) m(3,4) d(3,4) by blast
qed

lemma timeRe_sound:
  assumes "(s', c') \<in> set (matcher n timeRe (s, c))"
  shows "\<exists>t. c' = c(2 := Str t) \<and> length t = 4 \<and> list_all (atomMatches ClassD) t \<and> s = t @ 0x2D # s'"
proof -
  from assms obtain s1 c1 where
    g: "(s1, c1) \<in> set (matcher n (Group 2 (Quant ClassD 4 (Some 4) True)) (s, c))" and
    a: "(s', c') \<in> set (matcher n (Atom (Lit 0x2D)) (s1, c1))"
    unfolding timeRe_def seqs_def by (auto simp: in_matcher_Seq_pair in_matcher_Empty_pair)
  from g obtain c0 where
    q: "(s1, c0) \<in> set (matcher n (Quant ClassD 4 (Some 4) True) (s, c))" and
    c1: "c1 = c0(2 := Str (take (length s - length s1) s))"
    by (auto simp: in_matcher_Group)
  from in_matcher_exact [OF q] obtain t where
    t: "c0 = c" "s = t @ s1" "list_all (atomMatches ClassD) t" "length t = 4" by blast
  from a have a': "c' = c1" "s1 = 0x2D # s'" by (auto simp: in_matcher_Atom)
  have "take (length s - length s1) s = t" using t(2) by simp
  then show ?thesis using t a' c1 by auto
qed

lemma litRe_sound:
  assumes "(s', c') \<in> set (matcher n (lit w) (s, c))"
  shows "c' = c \<and> s = js w @ s'"
  using assms unfolding lit_def js_def
  by (induction w arbitrary: s) (auto simp: in_matcher_Seq_pair in_matcher_Empty_pair in_matcher_Atom)

lemma groupsOf_lit: "groupsOf (lit w) = {}"
  unfolding lit_def by (induction w) auto

lemma subagentRe_sound:
  assumes "(s', c') \<in> set (matcher n subagentRe (s, c))"
  shows "\<exists>a i. c' = c(4 := Str a, 5 := Str i) \<and> a \<noteq> [] \<and> i \<noteq> [] \<and>
           list_all (atomMatches AnyChar) a \<and> list_all (atomMatches ClassW) i \<and>
           s = js ''-subagent-'' @ a @ 0x2D # i @ s'"
proof -
  from assms obtain s1 c1 s2 c2 s3 c3 where
    l: "(s1, c1) \<in> set (matcher n (lit ''-subagent-'') (s, c))" and
    g4: "(s2, c2) \<in> set (matcher n (Group 4 (Quant AnyChar 1 None True)) (s1, c1))" and
    a: "(s3, c3) \<in> set (matcher n (Atom (Lit 0x2D)) (s2, c2))" and
    g5: "(s', c') \<in> set (matcher n (Group 5 (Quant ClassW 1 None True)) (s3, c3))"
    unfolding subagentRe_def seqs_def by (auto simp: in_matcher_Seq_pair in_matcher_Empty_pair)
  from litRe_sound [OF l] have l': "c1 = c" "s = js ''-subagent-'' @ s1" by simp_all
  from g4 obtain c0 where
    q4: "(s2, c0) \<in> set (matcher n (Quant AnyChar 1 None True) (s1, c1))" and
    c2: "c2 = c0(4 := Str (take (length s1 - length s2) s1))"
    by (auto simp: in_matcher_Group)
  from in_matcher_plus [OF q4] obtain a where
    a4: "c0 = c1" "s1 = a @ s2" "list_all (atomMatches AnyChar) a" "a \<noteq> []" by blast
  from a have a': "c3 = c2" "s2 = 0x2D # s3" by (auto simp: in_matcher_Atom)
  from g5 obtain c0' where
    q5: "(s', c0') \<in> set (matcher n (Quant ClassW 1 None True) (s3, c3))" and
    c': "c' = c0'(5 := Str (take (length s3 - length s') s3))"
    by (auto simp: in_matcher_Group)
  from in_matcher_plus [OF q5] obtain i where
    i5: "c0' = c3" "s3 = i @ s'" "list_all (atomMatches ClassW) i" "i \<noteq> []" by blast
  have "take (length s1 - length s2) s1 = a" using a4(2) by simp
  moreover have "take (length s3 - length s') s3 = i" using i5(2) by simp
  ultimately have "c' = c(4 := Str a, 5 := Str i)"
    using c' c2 a4(1) a'(1) i5(1) l'(1) by simp
  moreover have "s = js ''-subagent-'' @ a @ 0x2D # i @ s'"
    using l'(2) a4(2) a'(2) i5(2) by simp
  ultimately show ?thesis using a4(3,4) i5(3,4) by blast
qed

lemma groupsOf_timeRe: "groupsOf timeRe = {2}"
  by (simp add: timeRe_def seqs_def)

lemma groupsOf_subagentRe: "groupsOf subagentRe = {4, 5}"
  by (auto simp: subagentRe_def seqs_def groupsOf_lit)

lemma logNameRe_sound:
  assumes "(s', c') \<in> set (matcher n logNameRe (s, (\<lambda>k. Undefined)))"
  shows "\<exists>y m d tp w ap.
           s = (y @ 0x2D # m @ 0x2D # d) @ 0x2D # tp @ w @ ap \<and> s' = [] \<and> length s = n \<and>
           c' 1 = Str (y @ 0x2D # m @ 0x2D # d) \<and>
           length y = 4 \<and> length m = 2 \<and> length d = 2 \<and>
           list_all (atomMatches ClassD) y \<and> list_all (atomMatches ClassD) m \<and>
           list_all (atomMatches ClassD) d \<and>
           (c' 2 = Undefined \<and> tp = [] \<or>
            (\<exists>t. c' 2 = Str t \<and> tp = t @ [0x2D] \<and> length t = 4 \<and> list_all (atomMatches ClassD) t)) \<and>
           c' 3 = Str w \<and> w \<noteq> [] \<and> list_all (atomMatches ClassW) w \<and>
           (c' 4 = Undefined \<and> c' 5 = Undefined \<and> ap = [] \<or>
            (\<exists>a i. c' 4 = Str a \<and> c' 5 = Str i \<and> ap = js ''-subagent-'' @ a @ 0x2D # i \<and>
                   a \<noteq> [] \<and> i \<noteq> [] \<and> list_all (atomMatches AnyChar) a \<and>
                   list_all (atomMatches ClassW) i))"
proof -
  let ?c0 = "\<lambda>k::nat. Undefined"
  from assms obtain s1 c1 s2 c2 s3 c3 s4 c4 s5 c5 s6 c6 where
    bol: "(s1, c1) \<in> set (matcher n Bol (s, ?c0))" and
    g1: "(s2, c2) \<in> set (matcher n (Group 1 dateRe) (s1, c1))" and
    dash: "(s3, c3) \<in> set (matcher n (Atom (Lit 0x2D)) (s2, c2))" and
    ot: "(s4, c4) \<in> set (matcher n (Opt timeRe) (s3, c3))" and
    g3: "(s5, c5) \<in> set (matcher n (Group 3 (Quant ClassW 1 None False)) (s4, c4))" and
    oa: "(s6, c6) \<in> set (matcher n (Opt subagentRe) (s5, c5))" and
    eol: "(s', c') \<in> set (matcher n Eol (s6, c6))"
    unfolding logNameRe_def seqs_def by (auto simp: in_matcher_Seq_pair in_matcher_Empty_pair)
  from bol have b: "s1 = s" "c1 = ?c0" "length s = n" by (auto simp: in_matcher_Bol_iff)
  from g1 obtain c1' where
    dr: "(s2, c1') \<in> set (matcher n dateRe (s1, c1))" and
    c2: "c2 = c1'(1 := Str (take (length s1 - length s2) s1))"
    by (auto simp: in_matcher_Group)
  from dateRe_sound [OF dr] obtain y m d where
    dt: "c1' = c1" "s1 = (y @ 0x2D # m @ 0x2D # d) @ s2" "length y = 4" "length m = 2"
        "length d = 2" "list_all (atomMatches ClassD) y" "list_all (atomMatches ClassD) m"
        "list_all (atomMatches ClassD) d"
    by blast
  let ?dt = "y @ 0x2D # m @ 0x2D # d"
  have "take (length s1 - length s2) s1 = ?dt" using dt(2) by simp
  then have c2': "c2 = ?c0(1 := Str ?dt)" using c2 dt(1) b(2) by simp
  from dash have da: "c3 = c2" "s2 = 0x2D # s3" by (auto simp: in_matcher_Atom)
  from in_matcher_Opt [OF ot] obtain tp where
    tp: "s3 = tp @ s4" "c4 1 = Str ?dt" "c4 4 = Undefined" "c4 5 = Undefined"
        "c4 2 = Undefined \<and> tp = [] \<or>
         (\<exists>t. c4 2 = Str t \<and> tp = t @ [0x2D] \<and> length t = 4 \<and> list_all (atomMatches ClassD) t)"
  proof
    assume "(s4, c4) = (s3, c3)"
    then have "s3 = [] @ s4" "c4 1 = Str ?dt" "c4 4 = Undefined" "c4 5 = Undefined"
      "c4 2 = Undefined \<and> [] = []"
      using da(1) c2' by simp_all
    then show ?thesis using that by blast
  next
    assume "(s4, c4) \<in> set (matcher n timeRe (s3, (\<lambda>k. if k \<in> groupsOf timeRe then Undefined else c3 k)))"
    from timeRe_sound [OF this] obtain t where
      t: "c4 = (\<lambda>k. if k \<in> groupsOf timeRe then Undefined else c3 k)(2 := Str t)"
         "length t = 4" "list_all (atomMatches ClassD) t" "s3 = t @ 0x2D # s4"
      by blast
    have "s3 = (t @ [0x2D]) @ s4" using t(4) by simp
    moreover have "c4 1 = Str ?dt" "c4 4 = Undefined" "c4 5 = Undefined" "c4 2 = Str t"
      using t(1) da(1) c2' by (simp_all add: groupsOf_timeRe)
    ultimately show ?thesis using that t(2,3) by blast
  qed
  from g3 obtain c4' where
    q3: "(s5, c4') \<in> set (matcher n (Quant ClassW 1 None False) (s4, c4))" and
    c5: "c5 = c4'(3 := Str (take (length s4 - length s5) s4))"
    by (auto simp: in_matcher_Group)
  from in_matcher_plus [OF q3] obtain w where
    w: "c4' = c4" "s4 = w @ s5" "list_all (atomMatches ClassW) w" "w \<noteq> []" by blast
  have "take (length s4 - length s5) s4 = w" using w(2) by simp
  then have c5': "c5 = c4(3 := Str w)" using c5 w(1) by simp
  from in_matcher_Opt [OF oa] obtain ap where
    ap: "s5 = ap @ s6" "c6 1 = Str ?dt" "c6 2 = c4 2" "c6 3 = Str w"
        "c6 4 = Undefined \<and> c6 5 = Undefined \<and> ap = [] \<or>
         (\<exists>a i. c6 4 = Str a \<and> c6 5 = Str i \<and> ap = js ''-subagent-'' @ a @ 0x2D # i \<and>
                a \<noteq> [] \<and> i \<noteq> [] \<and> list_all (atomMatches AnyChar) a \<and>
                list_all (atomMatches ClassW) i)"
  proof
    assume "(s6, c6) = (s5, c5)"
    then have "s5 = [] @ s6" "c6 1 = Str ?dt" "c6 2 = c4 2" "c6 3 = Str w"
      "c6 4 = Undefined \<and> c6 5 = Undefined \<and> [] = []"
      using c5' tp(2,3,4) by simp_all
    then show ?thesis using that by blast
  next
    assume "(s6, c6) \<in> set (matcher n subagentRe (s5, (\<lambda>k. if k \<in> groupsOf subagentRe then Undefined else c5 k)))"
    from subagentRe_sound [OF this] obtain a i where
      ai: "c6 = (\<lambda>k. if k \<in> groupsOf subagentRe then Undefined else c5 k)(4 := Str a, 5 := Str i)"
          "a \<noteq> []" "i \<noteq> []" "list_all (atomMatches AnyChar) a" "list_all (atomMatches ClassW) i"
          "s5 = js ''-subagent-'' @ a @ 0x2D # i @ s6"
      by blast
    have "s5 = (js ''-subagent-'' @ a @ 0x2D # i) @ s6" using ai(6) by simp
    moreover have "c6 1 = Str ?dt" "c6 2 = c4 2" "c6 3 = Str w" "c6 4 = Str a" "c6 5 = Str i"
      using ai(1) c5' tp(2) by (simp_all add: groupsOf_subagentRe)
    ultimately show ?thesis using that ai(2,3,4,5) by blast
  qed
  from eol have e: "s' = s6" "c' = c6" "s6 = []" by (auto simp: in_matcher_Eol_iff)
  have "s = ?dt @ 0x2D # tp @ w @ ap"
    using b(1) dt(2) da(2) tp(1) w(2) ap(1) e(3) by simp
  then have "s = (y @ 0x2D # m @ 0x2D # d) @ 0x2D # tp @ w @ ap \<and> s' = [] \<and> length s = n \<and>
           c' 1 = Str (y @ 0x2D # m @ 0x2D # d) \<and>
           length y = 4 \<and> length m = 2 \<and> length d = 2 \<and>
           list_all (atomMatches ClassD) y \<and> list_all (atomMatches ClassD) m \<and>
           list_all (atomMatches ClassD) d \<and>
           (c' 2 = Undefined \<and> tp = [] \<or>
            (\<exists>t. c' 2 = Str t \<and> tp = t @ [0x2D] \<and> length t = 4 \<and> list_all (atomMatches ClassD) t)) \<and>
           c' 3 = Str w \<and> w \<noteq> [] \<and> list_all (atomMatches ClassW) w \<and>
           (c' 4 = Undefined \<and> c' 5 = Undefined \<and> ap = [] \<or>
            (\<exists>a i. c' 4 = Str a \<and> c' 5 = Str i \<and> ap = js ''-subagent-'' @ a @ 0x2D # i \<and>
                   a \<noteq> [] \<and> i \<noteq> [] \<and> list_all (atomMatches AnyChar) a \<and>
                   list_all (atomMatches ClassW) i))"
    using e b(3) ap(2,3,4,5) tp(5) dt(3-8) w(3,4) by simp
  then show ?thesis by (intro exI)
qed

lemma regExpExec_logNameRe_sound:
  assumes "regExpExec logNameRe S = Some c'"
  shows "\<exists>y m d tp w ap.
           S = (y @ 0x2D # m @ 0x2D # d) @ 0x2D # tp @ w @ ap \<and>
           c' 1 = Str (y @ 0x2D # m @ 0x2D # d) \<and>
           length y = 4 \<and> length m = 2 \<and> length d = 2 \<and>
           list_all (atomMatches ClassD) y \<and> list_all (atomMatches ClassD) m \<and>
           list_all (atomMatches ClassD) d \<and>
           (c' 2 = Undefined \<and> tp = [] \<or>
            (\<exists>t. c' 2 = Str t \<and> tp = t @ [0x2D] \<and> length t = 4 \<and> list_all (atomMatches ClassD) t)) \<and>
           c' 3 = Str w \<and> w \<noteq> [] \<and> list_all (atomMatches ClassW) w \<and>
           (c' 4 = Undefined \<and> c' 5 = Undefined \<and> ap = [] \<or>
            (\<exists>a i. c' 4 = Str a \<and> c' 5 = Str i \<and> ap = js ''-subagent-'' @ a @ 0x2D # i \<and>
                   a \<noteq> [] \<and> i \<noteq> [] \<and> list_all (atomMatches AnyChar) a \<and>
                   list_all (atomMatches ClassW) i))"
proof -
  let ?all = "concat (map (\<lambda>i. matcher (length S) (Group 0 logNameRe) (drop i S, (\<lambda>k. Undefined)))
                        [0 ..< Suc (length S)])"
  from assms obtain s rest where "?all = (s, c') # rest"
    unfolding regExpExec_def by (auto split: list.splits)
  then have "(s, c') \<in> set ?all" by simp
  then obtain i where
    i: "i \<le> length S" and
    mem: "(s, c') \<in> set (matcher (length S) (Group 0 logNameRe) (drop i S, (\<lambda>k. Undefined)))"
    by (auto simp del: upt_Suc simp: less_Suc_eq_le)
  from mem obtain c0 where
    c0: "(s, c0) \<in> set (matcher (length S) logNameRe (drop i S, (\<lambda>k. Undefined)))" and
    c': "c' = c0(0 := Str (take (length (drop i S) - length s) (drop i S)))"
    by (auto simp: in_matcher_Group)
  have eq: "c' 1 = c0 1" "c' 2 = c0 2" "c' 3 = c0 3" "c' 4 = c0 4" "c' 5 = c0 5"
    using c' by simp_all
  from logNameRe_sound [OF c0] obtain y m d tp w ap where
    r: "drop i S = (y @ 0x2D # m @ 0x2D # d) @ 0x2D # tp @ w @ ap \<and> s = [] \<and>
        length (drop i S) = length S \<and>
           c0 1 = Str (y @ 0x2D # m @ 0x2D # d) \<and>
           length y = 4 \<and> length m = 2 \<and> length d = 2 \<and>
           list_all (atomMatches ClassD) y \<and> list_all (atomMatches ClassD) m \<and>
           list_all (atomMatches ClassD) d \<and>
           (c0 2 = Undefined \<and> tp = [] \<or>
            (\<exists>t. c0 2 = Str t \<and> tp = t @ [0x2D] \<and> length t = 4 \<and> list_all (atomMatches ClassD) t)) \<and>
           c0 3 = Str w \<and> w \<noteq> [] \<and> list_all (atomMatches ClassW) w \<and>
           (c0 4 = Undefined \<and> c0 5 = Undefined \<and> ap = [] \<or>
            (\<exists>a i. c0 4 = Str a \<and> c0 5 = Str i \<and> ap = js ''-subagent-'' @ a @ 0x2D # i \<and>
                   a \<noteq> [] \<and> i \<noteq> [] \<and> list_all (atomMatches AnyChar) a \<and>
                   list_all (atomMatches ClassW) i))"
    by blast
  from r have "length (drop i S) = length S" by blast
  moreover from r have "length S \<noteq> 0" by auto
  ultimately have "i = 0" by (cases S) auto
  with r have "S = (y @ 0x2D # m @ 0x2D # d) @ 0x2D # tp @ w @ ap \<and>
           c' 1 = Str (y @ 0x2D # m @ 0x2D # d) \<and>
           length y = 4 \<and> length m = 2 \<and> length d = 2 \<and>
           list_all (atomMatches ClassD) y \<and> list_all (atomMatches ClassD) m \<and>
           list_all (atomMatches ClassD) d \<and>
           (c' 2 = Undefined \<and> tp = [] \<or>
            (\<exists>t. c' 2 = Str t \<and> tp = t @ [0x2D] \<and> length t = 4 \<and> list_all (atomMatches ClassD) t)) \<and>
           c' 3 = Str w \<and> w \<noteq> [] \<and> list_all (atomMatches ClassW) w \<and>
           (c' 4 = Undefined \<and> c' 5 = Undefined \<and> ap = [] \<or>
            (\<exists>a i. c' 4 = Str a \<and> c' 5 = Str i \<and> ap = js ''-subagent-'' @ a @ 0x2D # i \<and>
                   a \<noteq> [] \<and> i \<noteq> [] \<and> list_all (atomMatches AnyChar) a \<and>
                   list_all (atomMatches ClassW) i))"
    unfolding eq by simp
  then show ?thesis by (intro exI)
qed

lemma regExpExec_specGrammar:
  assumes "regExpExec logNameRe name = Some c'"
  shows "specGrammar name"
proof -
  from regExpExec_logNameRe_sound [OF assms] obtain y m d tp w ap where
    r: "name = (y @ 0x2D # m @ 0x2D # d) @ 0x2D # tp @ w @ ap"
       "length y = 4" "length m = 2" "length d = 2"
       "list_all (atomMatches ClassD) y" "list_all (atomMatches ClassD) m"
       "list_all (atomMatches ClassD) d"
       "c' 2 = Undefined \<and> tp = [] \<or>
        (\<exists>t. c' 2 = Str t \<and> tp = t @ [0x2D] \<and> length t = 4 \<and> list_all (atomMatches ClassD) t)"
       "w \<noteq> []" "list_all (atomMatches ClassW) w"
       "c' 4 = Undefined \<and> c' 5 = Undefined \<and> ap = [] \<or>
        (\<exists>a i. c' 4 = Str a \<and> c' 5 = Str i \<and> ap = js ''-subagent-'' @ a @ 0x2D # i \<and>
               a \<noteq> [] \<and> i \<noteq> [] \<and> list_all (atomMatches AnyChar) a \<and>
               list_all (atomMatches ClassW) i)"
    by blast
  from r(8) have tm: "tp = [] \<or> (\<exists>t. tp = t @ [0x2D] \<and> length t = 4 \<and> list_all (atomMatches ClassD) t)"
    by blast
  from r(11) have sub: "ap = [] \<or>
         (\<exists>a i. ap = js ''-subagent-'' @ a @ 0x2D # i \<and> a \<noteq> [] \<and> i \<noteq> [] \<and>
                list_all (atomMatches ClassW) i)"
    by blast
  have "name = (y @ 0x2D # m @ 0x2D # d) @ 0x2D # tp @ w @ ap \<and>
        length y = 4 \<and> length m = 2 \<and> length d = 2 \<and>
        list_all (atomMatches ClassD) y \<and> list_all (atomMatches ClassD) m \<and>
        list_all (atomMatches ClassD) d \<and>
        (tp = [] \<or> (\<exists>t. tp = t @ [0x2D] \<and> length t = 4 \<and> list_all (atomMatches ClassD) t)) \<and>
        w \<noteq> [] \<and> list_all (atomMatches ClassW) w \<and>
        (ap = [] \<or>
         (\<exists>a i. ap = js ''-subagent-'' @ a @ 0x2D # i \<and> a \<noteq> [] \<and> i \<noteq> [] \<and>
                list_all (atomMatches ClassW) i))"
    using r(1-7,9,10) tm sub by (simp only: simp_thms)
  then show ?thesis unfolding specGrammar_def by (intro exI)
qed

lemma digit_word: "atomMatches ClassD c \<Longrightarrow> atomMatches ClassW c"
  by simp



subsection \<open>Trimming\<close>

lemma digit_not_space: "atomMatches ClassD c \<Longrightarrow> \<not> isWhiteSpace c"
  by (auto simp: isWhiteSpace_def word_le_nat_alt)

lemma trim_id:
  assumes "s \<noteq> []" and "\<not> isWhiteSpace (hd s)" and "\<not> isWhiteSpace (last s)"
  shows "trim s = s"
proof -
  from assms(1,2) have "dropWhile isWhiteSpace s = s" by (cases s) auto
  moreover from assms(1,3) have "dropWhile isWhiteSpace (rev s) = rev s"
    by (cases "rev s") (auto simp: hd_rev [symmetric])
  ultimately show ?thesis by (simp add: trim_def)
qed

lemma trim_trailing_space:
  assumes "s \<noteq> []" and "\<not> isWhiteSpace (hd s)" and "\<not> isWhiteSpace (last s)"
  shows "trim (s @ js '' '') = s"
proof -
  from assms(1,2) have "dropWhile isWhiteSpace (s @ js '' '') = s @ js '' ''" by (cases s) auto
  moreover from assms(1,3) have "dropWhile isWhiteSpace (rev s) = rev s"
    by (cases "rev s") (auto simp: hd_rev [symmetric])
  moreover have "isWhiteSpace 0x20" by (simp add: isWhiteSpace_def)
  ultimately show ?thesis by (simp add: trim_def js_def)
qed

lemma set_trim: "set (trim s) \<subseteq> set s"
  unfolding trim_def by (auto dest!: set_dropWhileD)

lemma list_all_hd: "list_all P xs \<Longrightarrow> xs \<noteq> [] \<Longrightarrow> P (hd xs)"
  by (cases xs) auto

lemma list_all_last: "list_all P xs \<Longrightarrow> xs \<noteq> [] \<Longrightarrow> P (last xs)"
  by (induction xs) auto

subsection \<open>The entries of the index\<close>

lemma entryLabel_no_dollar:
  assumes "0x24 \<notin> set f"
  shows "0x24 \<notin> set (entryLabel (parseLogName f))"
proof -
  let ?S = "replaceString f (js ''.md'') []"
  have S: "0x24 \<notin> set ?S" using assms set_replaceString_empty [of f] by blast
  show ?thesis
  proof (cases "regExpExec logNameRe ?S")
    case None
    then show ?thesis using S by (simp add: parseLogName_def entryLabel_def)
  next
    case (Some c')
    from regExpExec_logNameRe_sound [OF Some] obtain y m d tp w ap where
      dec: "?S = (y @ 0x2D # m @ 0x2D # d) @ 0x2D # tp @ w @ ap" and
      c1: "c' 1 = Str (y @ 0x2D # m @ 0x2D # d)" and
      c2: "c' 2 = Undefined \<and> tp = [] \<or> (\<exists>t. c' 2 = Str t \<and> tp = t @ [0x2D])" and
      c3: "c' 3 = Str w" and
      c45: "c' 4 = Undefined \<and> c' 5 = Undefined \<and> ap = [] \<or>
            (\<exists>a i. c' 4 = Str a \<and> c' 5 = Str i \<and> ap = js ''-subagent-'' @ a @ 0x2D # i)"
      by blast
    let ?dt = "y @ 0x2D # m @ 0x2D # d"
    let ?p = "parseLogName f"
    from S dec have parts: "0x24 \<notin> set ?dt" "0x24 \<notin> set tp" "0x24 \<notin> set w" "0x24 \<notin> set ap"
      by auto
    have fields: "date ?p = Str ?dt" "session ?p = Str w"
      using Some c1 c3 by (simp_all add: parseLogName_def Let_def)
    have tm: "0x24 \<notin> set (toString (time ?p))"
    proof -
      from c2 show ?thesis
      proof
        assume "c' 2 = Undefined \<and> tp = []"
        then show ?thesis using Some by (simp add: parseLogName_def Let_def)
      next
        assume "\<exists>t. c' 2 = Str t \<and> tp = t @ [0x2D]"
        then obtain t where t: "c' 2 = Str t" "tp = t @ [0x2D]" by blast
        with parts(2) have "0x24 \<notin> set t" by simp
        then have "0x24 \<notin> set (take 2 t)" "0x24 \<notin> set (drop 2 t)"
          by (auto dest: in_set_takeD in_set_dropD)
        then show ?thesis using Some t(1) by (simp add: parseLogName_def Let_def js_def)
      qed
    qed
    have ag: "0x24 \<notin> set (toString (agentType ?p))"
             "0x24 \<notin> set (toString (jsOr (agentId ?p) (Str [])))"
      using c45 parts(4) Some by (auto simp: parseLogName_def Let_def jsOr_def js_def)
    have dtm: "0x24 \<notin> set (trim (toString (date ?p) @ js '' '' @ toString (time ?p)))"
    proof -
      have "0x24 \<notin> set (toString (date ?p) @ js '' '' @ toString (time ?p))"
        using parts(1) tm by (simp add: fields(1) js_def)
      then show ?thesis using set_trim by blast
    qed
    have k: "0x24 \<notin> set (js '' &mdash; '')" "0x24 \<notin> set (js ''<span class=\"subagent\">'')"
      "0x24 \<notin> set (js '' '')" "0x24 \<notin> set (js ''</span>'')"
      by (simp_all add: js_def)
    have r: "0x24 \<notin> set (toString (raw ?p))"
      using Some S by (simp add: parseLogName_def Let_def)
    show ?thesis
      unfolding entryLabel_def Let_def
      using dtm ag k r parts(3) by (simp add: fields(2))
  qed
qed

lemma indexEntry_expand:
  \<open>indexEntry f =
     js ''<div class="session">  <span class="session-name">'' @ entryLabel (parseLogName f) @
     js ''</span>  <span class="links">    <a href="/'' @ replaceString f (js ''.md'') [] @
     js ''">view</a>    <a href="/'' @ f @ js ''">raw</a>  </span></div>''\<close>
  unfolding indexEntry_def Let_def by (simp add: js_def)

lemma indexEntry_no_dollar:
  assumes "0x24 \<notin> set f"
  shows "0x24 \<notin> set (indexEntry f)"
proof -
  have "0x24 \<notin> set (replaceString f (js ''.md'') [])"
    using assms set_replaceString_empty [of f] by blast
  then show ?thesis
    unfolding indexEntry_expand
    using assms entryLabel_no_dollar [OF assms] by (simp add: js_def)
qed

lemma buildIndex_plain:
  assumes "f \<in> set (listFiles e)" and "\<forall>g \<in> set (listFiles e). 0x24 \<notin> set g"
  shows "\<exists>pre post. buildIndex e = pre @ indexEntry f @ post"
proof -
  let ?R = "join [0x0A] (map indexEntry (listFiles e))"
  have ne: "listFiles e \<noteq> []" using assms(1) by auto
  then have b: "buildIndex e = replaceString INDEX_TEMPLATE (js ''ENTRIES'') ?R"
    by (simp add: buildIndex_def Let_def)
  have "\<forall>x \<in> set (map indexEntry (listFiles e)). 0x24 \<notin> set x"
    using assms(2) by (simp add: indexEntry_no_dollar)
  then have nd: "0x24 \<notin> set ?R"
    by (intro not_in_join) simp_all
  from replace_ENTRIES [of ?R] have "\<exists>pre post. buildIndex e = pre @ ?R @ post"
  proof (elim exE)
    fix pre fol
    assume "replaceString INDEX_TEMPLATE (js ''ENTRIES'') ?R =
      join [0x0A] ((map js indexTemplateLines)[37 := getSubstitution (js ''ENTRIES'') pre fol ?R])"
    then have r: "buildIndex e = join [0x0A] ((map js indexTemplateLines)[37 := ?R])"
      unfolding b by (simp only: getSubstitution_plain [OF nd])
    have "?R \<in> set ((map js indexTemplateLines)[37 := ?R])"
      by (rule set_update_memI) (simp add: index_line)
    from join_member_split [OF this] show ?thesis unfolding r .
  qed
  then obtain pre post where 1: "buildIndex e = pre @ ?R @ post" by blast
  have "indexEntry f \<in> set (map indexEntry (listFiles e))" using assms(1) by simp
  from join_member_split [OF this] obtain pre' post' where
    2: "?R = pre' @ indexEntry f @ post'" by blast
  have "buildIndex e = (pre @ pre') @ indexEntry f @ (post' @ post)"
    unfolding 1 2 by simp
  then show ?thesis by blast
qed

lemma indexEntry_dollar:
  "indexEntry (js ''$&.md'') =
     js ''<div class=\"session\">  <span class=\"session-name\">$&</span>  <span class=\"links\">    <a href=\"/$&\">view</a>    <a href=\"/$&.md\">raw</a>  </span></div>''"
proof -
  have p: "parseLogName (js ''$&.md'') =
     \<lparr>raw = Str (js ''$&''), date = Str [], time = Str [], session = Str [],
      agentType = Null, agentId = Null\<rparr>"
    by (simp add: parse_eval)
  have s: "replaceString (js ''$&.md'') (js ''.md'') [] = js ''$&''"
    by (simp add: replaceString_def startsWith_def js_def)
  show ?thesis
    unfolding indexEntry_def Let_def p s by (simp add: entryLabel_def js_def)
qed

lemma substitution_dollar:
  "getSubstitution (js ''ENTRIES'') pre fol
     (js ''<div class=\"session\">  <span class=\"session-name\">$&</span>  <span class=\"links\">    <a href=\"/$&\">view</a>    <a href=\"/$&.md\">raw</a>  </span></div>'') =
   js ''<div class=\"session\">  <span class=\"session-name\">ENTRIES</span>  <span class=\"links\">    <a href=\"/ENTRIES\">view</a>    <a href=\"/ENTRIES.md\">raw</a>  </span></div>''"
  by (simp add: js_def)

section \<open>Properties\<close>

subsection \<open>The request handler and malformed escapes\<close>

text \<open>
  C1. The claim is that the handler answers every request path without
  throwing. The code decodes the URL outside of any \<^verbatim>\<open>try\<close>: for the path
  \<^verbatim>\<open>/%\<close> the escape is cut short, \<^verbatim>\<open>decodeURIComponent\<close> throws a
  \<^verbatim>\<open>URIError\<close>, and the exception leaves the callback, whatever the log
  directory holds.
\<close>

theorem handler_malformed_escape_throws:
  "handler e (js ''/%'') = Inl URIError"
  by (simp add: handler_def js_def)

subsection \<open>The agent type and the agent id come together\<close>

text \<open>
  C2. For every file name, the agent type and the agent id of the record
  returned by \<open>parseLogName\<close> are both \<^verbatim>\<open>null\<close>, or both are strings, and
  then neither is empty.
\<close>

theorem parseLogName_agent_pair:
  "agentType (parseLogName f) = Null \<and> agentId (parseLogName f) = Null \<or>
   (\<exists>a i. agentType (parseLogName f) = Str a \<and> agentId (parseLogName f) = Str i \<and>
          a \<noteq> [] \<and> i \<noteq> [])"
proof (cases "regExpExec logNameRe (replaceString f (js ''.md'') [])")
  case None
  then show ?thesis by (simp add: parseLogName_def)
next
  case (Some c')
  from regExpExec_logNameRe_sound [OF Some]
  have "c' 4 = Undefined \<and> c' 5 = Undefined \<or>
        (\<exists>a i. c' 4 = Str a \<and> c' 5 = Str i \<and> a \<noteq> [] \<and> i \<noteq> [])"
    by blast
  then show ?thesis
    using Some by (auto simp: parseLogName_def Let_def jsOr_def)
qed

subsection \<open>The fallback record\<close>


subsection \<open>The round trip of the specification\<close>





subsection \<open>The label of a dated entry\<close>

text \<open>
  C5, as the claim states it, fails: for \<^verbatim>\<open>2024-01-15-deploy.md\<close> the date is
  not empty and the time is, the composition
  \<^verbatim>\<open><date> <time> &mdash; <session>\<close> has two spaces between the date and the
  dash, and the label has one, because the code trims the date and time.
\<close>

theorem entryLabel_trims_counterexample:
  "truthy (date (parseLogName (js ''2024-01-15-deploy.md''))) \<and>
   time (parseLogName (js ''2024-01-15-deploy.md'')) = Str [] \<and>
   entryLabel (parseLogName (js ''2024-01-15-deploy.md'')) = js ''2024-01-15 &mdash; deploy'' \<and>
   toString (date (parseLogName (js ''2024-01-15-deploy.md''))) @ js '' '' @
     toString (time (parseLogName (js ''2024-01-15-deploy.md''))) @ js '' &mdash; '' @
     toString (session (parseLogName (js ''2024-01-15-deploy.md''))) = js ''2024-01-15  &mdash; deploy'' \<and>
   js ''2024-01-15 &mdash; deploy'' \<noteq> js ''2024-01-15  &mdash; deploy''"
proof -
  have p: "parseLogName (js ''2024-01-15-deploy.md'') =
     \<lparr>raw = Str (js ''2024-01-15-deploy''), date = Str (js ''2024-01-15''), time = Str [],
      session = Str (js ''deploy''), agentType = Null, agentId = Null\<rparr>"
    by (simp add: parse_eval)
  show ?thesis
    unfolding p by (simp add: entryLabel_def trim_def isWhiteSpace_def js_def)
qed

text \<open>
  C5, amended. For every file name whose parsed record has a non-empty date,
  the label is the date, then a space and the time when the time is not
  empty, then \<^verbatim>\<open> &mdash; \<close> and the session, then the sub-agent annotation
  when the record has an agent type.
\<close>

theorem entryLabel_dated:
  assumes "truthy (date (parseLogName f))"
  shows "entryLabel (parseLogName f) =
           toString (date (parseLogName f)) @
           (if time (parseLogName f) = Str [] then []
            else js '' '' @ toString (time (parseLogName f))) @
           js '' &mdash; '' @ toString (session (parseLogName f)) @
           (if truthy (agentType (parseLogName f))
            then js ''<span class=\"subagent\">'' @ toString (agentType (parseLogName f)) @
                 js '' '' @ toString (agentId (parseLogName f)) @ js ''</span>''
            else [])"
proof (cases "regExpExec logNameRe (replaceString f (js ''.md'') [])")
  case None
  with assms show ?thesis by (simp add: parseLogName_def)
next
  case (Some c')
  from regExpExec_logNameRe_sound [OF Some] obtain y m d w where
    c1: "c' 1 = Str (y @ 0x2D # m @ 0x2D # d)" and
    len: "length y = 4" "length d = 2" and
    dig: "list_all (atomMatches ClassD) y" "list_all (atomMatches ClassD) d" and
    c2: "c' 2 = Undefined \<or> (\<exists>t. c' 2 = Str t \<and> length t = 4 \<and> list_all (atomMatches ClassD) t)" and
    c3: "c' 3 = Str w" and
    c45: "c' 4 = Undefined \<and> c' 5 = Undefined \<or>
          (\<exists>a i. c' 4 = Str a \<and> c' 5 = Str i \<and> a \<noteq> [] \<and> i \<noteq> [])"
    by blast
  let ?dt = "y @ 0x2D # m @ 0x2D # d"
  let ?p = "parseLogName f"
  have y: "y \<noteq> []" and d: "d \<noteq> []" using len by auto
  have hd_dt: "\<not> isWhiteSpace (hd ?dt)"
    using list_all_hd [OF dig(1) y] y by (simp add: digit_not_space)
  have last_dt: "\<not> isWhiteSpace (last ?dt)"
    using list_all_last [OF dig(2) d] d by (simp add: digit_not_space)
  have fields: "date ?p = Str ?dt" "session ?p = Str w"
    "agentType ?p = jsOr (c' 4) Null" "agentId ?p = jsOr (c' 5) Null"
    using Some c1 c3 by (simp_all add: parseLogName_def Let_def)
  have agent: "toString (jsOr (agentId ?p) (Str [])) = toString (agentId ?p)"
    if "truthy (agentType ?p)"
    using that c45 fields(3,4) by (auto simp: jsOr_def)
  from c2 have dateTime:
    "trim (toString (date ?p) @ js '' '' @ toString (time ?p)) =
       ?dt @ (if time ?p = Str [] then [] else js '' '' @ toString (time ?p))"
  proof
    assume u: "c' 2 = Undefined"
    then have t: "time ?p = Str []" using Some by (simp add: parseLogName_def Let_def)
    show ?thesis
      using trim_trailing_space [OF _ hd_dt last_dt] by (simp add: t fields(1))
  next
    assume "\<exists>t. c' 2 = Str t \<and> length t = 4 \<and> list_all (atomMatches ClassD) t"
    then obtain t where t: "c' 2 = Str t" "length t = 4" "list_all (atomMatches ClassD) t"
      by blast
    then have tne: "t \<noteq> []" "drop 2 t \<noteq> []" by auto
    have tm: "time ?p = Str (take 2 t @ js '':'' @ drop 2 t)"
      using Some t(1) tne(1) by (simp add: parseLogName_def Let_def)
    have "last (drop 2 t) = last t" using tne(2) by simp
    then have "\<not> isWhiteSpace (last (drop 2 t))"
      using list_all_last [OF t(3) tne(1)] by (simp add: digit_not_space)
    then have l: "\<not> isWhiteSpace (last (?dt @ js '' '' @ take 2 t @ js '':'' @ drop 2 t))"
      using tne(2) by (simp add: js_def)
    have h: "\<not> isWhiteSpace (hd (?dt @ js '' '' @ take 2 t @ js '':'' @ drop 2 t))"
      using hd_dt y by simp
    have "trim (?dt @ js '' '' @ take 2 t @ js '':'' @ drop 2 t) =
            ?dt @ js '' '' @ take 2 t @ js '':'' @ drop 2 t"
      using trim_id [OF _ h l] y by simp
    then show ?thesis
      using tne by (simp add: tm fields(1) js_def)
  qed
  have tr: "truthy (date ?p)" using assms .
  show ?thesis
    unfolding entryLabel_def Let_def
    using tr dateTime agent by (simp add: fields(1,2))
qed

theorem entryLabel_dated_witness:
  "truthy (date (parseLogName (js ''2024-01-15-0900-deploy.md''))) \<and>
   entryLabel (parseLogName (js ''2024-01-15-0900-deploy.md'')) = js ''2024-01-15 09:00 &mdash; deploy''"
proof -
  have p: "parseLogName (js ''2024-01-15-0900-deploy.md'') =
     \<lparr>raw = Str (js ''2024-01-15-0900-deploy''), date = Str (js ''2024-01-15''),
      time = Str (js ''09:00''), session = Str (js ''deploy''), agentType = Null, agentId = Null\<rparr>"
    by (simp add: parse_eval)
  have h: "truthy (date (parseLogName (js ''2024-01-15-0900-deploy.md'')))"
    unfolding p by (simp add: js_def)
  show ?thesis
    using h entryLabel_dated [OF h] unfolding p by (simp add: js_def)
qed

subsection \<open>The extension is removed where it first occurs\<close>

text \<open>
  C6. The claim is that \<open>raw\<close> and the slug of the view link are the file
  name without its trailing \<^verbatim>\<open>.md\<close>. For the listed file name
  \<^verbatim>\<open>a.md.b.md\<close> the code removes the first \<^verbatim>\<open>.md\<close>, not the last: \<open>raw\<close>
  and the slug are \<^verbatim>\<open>a.b.md\<close>, not \<^verbatim>\<open>a.md.b\<close>, and the request for the
  view link \<^verbatim>\<open>/a.b.md\<close> is answered with status 404.
\<close>

theorem parseLogName_interior_md:
  "listFiles interiorDir = [js ''a.md.b.md''] \<and>
   raw (parseLogName (js ''a.md.b.md'')) = Str (js ''a.b.md'') \<and>
   replaceString (js ''a.md.b.md'') (js ''.md'') [] = js ''a.b.md'' \<and>
   indexEntry (js ''a.md.b.md'') =
     js ''<div class=\"session\">  <span class=\"session-name\">a.b.md</span>  <span class=\"links\">    <a href=\"/a.b.md\">view</a>    <a href=\"/a.md.b.md\">raw</a>  </span></div>'' \<and>
   handler interiorDir (js ''/a.b.md'') = Inr (respond 404 (js ''Not found'') (js ''text/plain''))"
proof -
  have l: "listFiles interiorDir = [js ''a.md.b.md'']"
    by (simp add: listFiles_def interiorDir_def endsWith_def startsWith_def js_def)
  have q: "parseLogName (js ''a.md.b.md'') =
     \<lparr>raw = Str (js ''a.b.md''), date = Str [], time = Str [], session = Str [],
      agentType = Null, agentId = Null\<rparr>"
    by (simp add: parse_eval)
  have p: "raw (parseLogName (js ''a.md.b.md'')) = Str (js ''a.b.md'')"
    unfolding q by simp
  have s: "replaceString (js ''a.md.b.md'') (js ''.md'') [] = js ''a.b.md''"
    by (simp add: replaceString_def startsWith_def js_def)
  have i: "indexEntry (js ''a.md.b.md'') =
     js ''<div class=\"session\">  <span class=\"session-name\">a.b.md</span>  <span class=\"links\">    <a href=\"/a.b.md\">view</a>    <a href=\"/a.md.b.md\">raw</a>  </span></div>''"
    unfolding indexEntry_def Let_def q s by (simp add: entryLabel_def js_def)
  have d: "decodeURIComponent (js ''/a.b.md'') = Inr (js ''/a.b.md'')"
    by (rule decode_plain) (simp add: js_def)
  have b: "basename (js ''a.b.md'') = js ''a.b.md''"
    by (rule basename_plain) (simp add: js_def)
  have u: "dropWhile (\<lambda>c. c = 0x2F) (js ''/a.b.md'') = js ''a.b.md''"
    by (simp add: js_def)
  have n: "js ''/a.b.md'' \<noteq> []" "js ''a.b.md'' \<noteq> []"
    by (simp_all add: js_def)
  have ew: "endsWith (js ''a.b.md'') (js ''.md'')"
    by (simp add: endsWith_def js_def)
  have f: "readFileSync interiorDir (js ''a.b.md'') = None"
    by (simp add: interiorDir_def js_def)
  have h: "handler interiorDir (js ''/a.b.md'') =
             Inr (respond 404 (js ''Not found'') (js ''text/plain''))"
    unfolding handler_def
    by (simp only: n if_False d sum.case Let_def u ew if_True b f option.case)
  show ?thesis using l p s i h by (simp only: simp_thms)
qed

subsection \<open>The order of the listing\<close>

lemma sorted_wrt_desc:
  fixes xs :: "'a::linorder list"
  assumes "distinct xs"
  shows "sorted_wrt (\<lambda>a b. b < a) (rev (sort xs))"
proof -
  have "sorted_wrt (<) (sort xs)"
    using assms by (simp add: strict_sorted_iff)
  then show ?thesis
    by (simp add: sorted_wrt_rev)
qed

text \<open>
  C7. When the names in the directory are pairwise distinct, the listed
  files are strictly descending: each one is greater than every later one.
  The entries that \<open>buildIndex\<close> puts into the page are the entries of the
  listed files, in this order.
\<close>

theorem listFiles_strictly_descending:
  assumes "readdirSync e = Some names" and "distinct names"
  shows "sorted_wrt (\<lambda>a b. b < a) (listFiles e) \<and>
         (listFiles e = [] \<or>
          buildIndex e =
            replaceString INDEX_TEMPLATE (js ''ENTRIES'')
              (join [0x0A] (map indexEntry (listFiles e))))"
  using assms unfolding listFiles_def buildIndex_def Let_def
  by (simp add: sorted_wrt_desc listFiles_def)

theorem listFiles_strictly_descending_witness:
  "distinct [js ''2024-01-15-deploy.md'', js ''2024-02-01-0900-fix.md'',
             js ''notes.md'', js ''.hidden.md''] \<and>
   listFiles \<lparr>readdirSync = Some [js ''2024-01-15-deploy.md'', js ''2024-02-01-0900-fix.md'',
                                  js ''notes.md'', js ''.hidden.md''],
              readFileSync = (\<lambda>n. None)\<rparr> =
     [js ''notes.md'', js ''2024-02-01-0900-fix.md'', js ''2024-01-15-deploy.md''] \<and>
   sorted_wrt (\<lambda>a b. b < a)
     (listFiles \<lparr>readdirSync = Some [js ''2024-01-15-deploy.md'', js ''2024-02-01-0900-fix.md'',
                                    js ''notes.md'', js ''.hidden.md''],
                readFileSync = (\<lambda>n. None)\<rparr>)"
proof -
  have d: "distinct [js ''2024-01-15-deploy.md'', js ''2024-02-01-0900-fix.md'',
                     js ''notes.md'', js ''.hidden.md'']"
    by (simp add: js_def)
  have l: "listFiles \<lparr>readdirSync = Some [js ''2024-01-15-deploy.md'', js ''2024-02-01-0900-fix.md'',
                                         js ''notes.md'', js ''.hidden.md''],
                      readFileSync = (\<lambda>n. None)\<rparr> =
     [js ''notes.md'', js ''2024-02-01-0900-fix.md'', js ''2024-01-15-deploy.md'']"
    by (simp add: listFiles_def js_def endsWith_def startsWith_def)
  show ?thesis
    using d l
      listFiles_strictly_descending [OF _ d,
        of "\<lparr>readdirSync = Some [js ''2024-01-15-deploy.md'', js ''2024-02-01-0900-fix.md'',
                                 js ''notes.md'', js ''.hidden.md''],
             readFileSync = (\<lambda>n. None)\<rparr>", THEN conjunct1]
    by simp
qed

subsection \<open>The example of the specification\<close>

text \<open>
  C8. The file name \<^verbatim>\<open>2024-01-15-0900-deploy-subagent-reviewer-7f3a.md\<close>
  parses to the date \<^verbatim>\<open>2024-01-15\<close>, the time \<^verbatim>\<open>09:00\<close>, the session
  \<^verbatim>\<open>deploy\<close>, the agent type \<^verbatim>\<open>reviewer\<close> and the agent id \<^verbatim>\<open>7f3a\<close>.
\<close>

theorem parseLogName_subagent_example:
  "parseLogName (js ''2024-01-15-0900-deploy-subagent-reviewer-7f3a.md'') =
     \<lparr>raw = Str (js ''2024-01-15-0900-deploy-subagent-reviewer-7f3a''),
      date = Str (js ''2024-01-15''), time = Str (js ''09:00''),
      session = Str (js ''deploy''), agentType = Str (js ''reviewer''),
      agentId = Str (js ''7f3a'')\<rparr>"
  by (simp add: parse_eval)

subsection \<open>Hidden files are served\<close>

lemma hidden_title:
  "replaceString HTML_TEMPLATE (js ''TITLE'') (js ''.hidden'') =
     join [0x0A] (map js (htmlTemplateLines [5 := ''<title>.hidden</title>'']))"
  unfolding HTML_TEMPLATE_def
  by (rule replaceString_template_line [where c = "0x49" and k = 7])
     (simp_all add: htmlTemplateLines_def js_def startsWith_def)

lemma hidden_content:
  "replaceString (join [0x0A] (map js (htmlTemplateLines [5 := ''<title>.hidden</title>''])))
     (js ''CONTENT'') (js ''secret'') =
     join [0x0A] (map js (htmlTemplateLines
                     [5 := ''<title>.hidden</title>'',
                      35 := ''<pre id=\"content\">secret</pre>'']))"
  by (rule replaceString_template_line [where c = "0x4E" and k = 18])
     (simp_all add: htmlTemplateLines_def js_def startsWith_def)

text \<open>
  C9. A file of the log directory whose name begins with a dot and ends with
  \<^verbatim>\<open>.md\<close> is not among the listed files, and yet a request whose decoded
  path is a slash and that name is answered with status 200, a plain-text
  content type and the UTF-8 bytes of the text of the file; and when the name
  without its \<^verbatim>\<open>.md\<close> is not empty and does not itself end with \<^verbatim>\<open>.md\<close>, a
  request for that shorter path is answered with status 200, the content
  type \<^verbatim>\<open>text/html\<close> and the bytes of the rendered page of the file.
\<close>

theorem hidden_file_served:
  assumes "startsWith f (js ''.'')" and "endsWith f (js ''.md'')" and "0x2F \<notin> set f"
    and "decodeURIComponent url = Inr (0x2F # f)"
    and "readFileSync e f = Some content"
  shows "f \<notin> set (listFiles e) \<and>
         handler e url =
           Inr \<lparr>statusCode = 200, contentType = js ''text/plain; charset=utf-8'',
                contentLength = length (utf8Encode content),
                accessControlAllowOrigin = js ''*'', payload = utf8Encode content\<rparr> \<and>
         (\<forall>g url2. f = g @ js ''.md'' \<and> g \<noteq> [] \<and> \<not> endsWith g (js ''.md'') \<and>
                    decodeURIComponent url2 = Inr (0x2F # g) \<longrightarrow>
            handler e url2 =
              Inr \<lparr>statusCode = 200, contentType = js ''text/html'',
                   contentLength =
                     length (utf8Encode
                       (replaceString
                          (replaceString HTML_TEMPLATE (js ''TITLE'') (escapeHtml g))
                          (js ''CONTENT'') (escapeHtml content))),
                   accessControlAllowOrigin = js ''*'',
                   payload =
                     utf8Encode
                       (replaceString
                          (replaceString HTML_TEMPLATE (js ''TITLE'') (escapeHtml g))
                          (js ''CONTENT'') (escapeHtml content))\<rparr>)"
proof (intro conjI allI impI)
  show "f \<notin> set (listFiles e)"
    using assms(1) by (auto simp: listFiles_def split: option.splits)
next
  from assms(1) obtain f' where f: "f = 0x2E # f'"
    by (cases f) (auto simp: startsWith_def js_def)
  have url: "url \<noteq> []" using assms(4) by auto
  have u: "dropWhile (\<lambda>c. c = 0x2F) (0x2F # f) = f" by (simp add: f)
  have ne: "f \<noteq> []" by (simp add: f)
  have "handler e url = Inr (respond 200 content (js ''text/plain; charset=utf-8''))"
    unfolding handler_def
    by (simp only: url if_False assms(4) sum.case Let_def u ne assms(2) if_True
          basename_plain [OF assms(3)] assms(5) option.case)
  then show "handler e url =
           Inr \<lparr>statusCode = 200, contentType = js ''text/plain; charset=utf-8'',
                contentLength = length (utf8Encode content),
                accessControlAllowOrigin = js ''*'', payload = utf8Encode content\<rparr>"
    by (simp only: respond_def Let_def)
next
  fix g url2
  assume a: "f = g @ js ''.md'' \<and> g \<noteq> [] \<and> \<not> endsWith g (js ''.md'') \<and>
             decodeURIComponent url2 = Inr (0x2F # g)"
  then have g: "f = g @ js ''.md''" "g \<noteq> []" "\<not> endsWith g (js ''.md'')"
    and d: "decodeURIComponent url2 = Inr (0x2F # g)"
    by simp_all
  from assms(1) g(1,2) obtain g' where g': "g = 0x2E # g'"
    by (cases g) (auto simp: startsWith_def js_def)
  have url: "url2 \<noteq> []" using d by auto
  have u: "dropWhile (\<lambda>c. c = 0x2F) (0x2F # g) = g" by (simp add: g')
  have s: "0x2F \<notin> set g" using assms(3) g(1) by simp
  have r: "readFileSync e (g @ js ''.md'') = Some content" using assms(5) g(1) by simp
  have "handler e url2 =
          Inr (respond 200
                 (replaceString
                    (replaceString HTML_TEMPLATE (js ''TITLE'') (escapeHtml g))
                    (js ''CONTENT'') (escapeHtml content))
                 (js ''text/html''))"
    unfolding handler_def
    by (simp only: url if_False d sum.case Let_def u g(2,3) basename_plain [OF s] r option.case)
  then show "handler e url2 =
              Inr \<lparr>statusCode = 200, contentType = js ''text/html'',
                   contentLength =
                     length (utf8Encode
                       (replaceString
                          (replaceString HTML_TEMPLATE (js ''TITLE'') (escapeHtml g))
                          (js ''CONTENT'') (escapeHtml content))),
                   accessControlAllowOrigin = js ''*'',
                   payload =
                     utf8Encode
                       (replaceString
                          (replaceString HTML_TEMPLATE (js ''TITLE'') (escapeHtml g))
                          (js ''CONTENT'') (escapeHtml content))\<rparr>"
    by (simp only: respond_def Let_def)
qed

theorem hidden_file_served_witness:
  "startsWith (js ''.hidden.md'') (js ''.'') \<and> endsWith (js ''.hidden.md'') (js ''.md'') \<and>
   0x2F \<notin> set (js ''.hidden.md'') \<and>
   decodeURIComponent (js ''/.hidden.md'') = Inr (0x2F # js ''.hidden.md'') \<and>
   readFileSync exampleDir (js ''.hidden.md'') = Some (js ''secret'') \<and>
   js ''.hidden.md'' \<notin> set (listFiles exampleDir) \<and>
   handler exampleDir (js ''/.hidden.md'') =
     Inr \<lparr>statusCode = 200, contentType = js ''text/plain; charset=utf-8'',
          contentLength = 6, accessControlAllowOrigin = js ''*'',
          payload = map (\<lambda>c. of_nat (of_char c)) ''secret''\<rparr> \<and>
   handler exampleDir (js ''/.hidden'') =
     Inr \<lparr>statusCode = 200, contentType = js ''text/html'',
          contentLength =
            length (utf8Encode (join [0x0A] (map js (htmlTemplateLines
                     [5 := ''<title>.hidden</title>'',
                      35 := ''<pre id=\"content\">secret</pre>''])))),
          accessControlAllowOrigin = js ''*'',
          payload =
            utf8Encode (join [0x0A] (map js (htmlTemplateLines
                     [5 := ''<title>.hidden</title>'',
                      35 := ''<pre id=\"content\">secret</pre>''])))\<rparr>"
proof -
  have 1: "startsWith (js ''.hidden.md'') (js ''.'')" by (simp add: startsWith_def js_def)
  have 2: "endsWith (js ''.hidden.md'') (js ''.md'')" by (simp add: endsWith_def js_def)
  have 3: "0x2F \<notin> set (js ''.hidden.md'')" by (simp add: js_def)
  have "decodeURIComponent (js ''/.hidden.md'') = Inr (js ''/.hidden.md'')"
    by (rule decode_plain) (simp add: js_def)
  then have 4: "decodeURIComponent (js ''/.hidden.md'') = Inr (0x2F # js ''.hidden.md'')"
    by (simp add: js_def)
  have 5: "readFileSync exampleDir (js ''.hidden.md'') = Some (js ''secret'')"
    by (simp add: exampleDir_def js_def)
  have "decodeURIComponent (js ''/.hidden'') = Inr (js ''/.hidden'')"
    by (rule decode_plain) (simp add: js_def)
  then have 6: "js ''.hidden.md'' = js ''.hidden'' @ js ''.md'' \<and> js ''.hidden'' \<noteq> [] \<and>
      \<not> endsWith (js ''.hidden'') (js ''.md'') \<and>
      decodeURIComponent (js ''/.hidden'') = Inr (0x2F # js ''.hidden'')"
    by (simp add: js_def endsWith_def)
  have enc: "utf8Encode (js ''secret'') = map (\<lambda>c. of_nat (of_char c)) ''secret''"
    by (simp add: js_def)
  have t: "escapeHtml (js ''.hidden'') = js ''.hidden''"
    by (simp add: escapeHtml_def replaceAllChar_def js_def)
  have c: "escapeHtml (js ''secret'') = js ''secret''"
    by (simp add: escapeHtml_def replaceAllChar_def js_def)
  note th = hidden_file_served [OF 1 2 3 4 5]
  from th have a: "js ''.hidden.md'' \<notin> set (listFiles exampleDir)" by (rule conjunct1)
  from th have "handler exampleDir (js ''/.hidden.md'') =
     Inr \<lparr>statusCode = 200, contentType = js ''text/plain; charset=utf-8'',
          contentLength = length (utf8Encode (js ''secret'')),
          accessControlAllowOrigin = js ''*'', payload = utf8Encode (js ''secret'')\<rparr>"
    by (rule conjunct2 [THEN conjunct1])
  then have b: "handler exampleDir (js ''/.hidden.md'') =
     Inr \<lparr>statusCode = 200, contentType = js ''text/plain; charset=utf-8'',
          contentLength = 6, accessControlAllowOrigin = js ''*'',
          payload = map (\<lambda>c. of_nat (of_char c)) ''secret''\<rparr>"
    unfolding enc by simp
  from th have "\<forall>g url2. js ''.hidden.md'' = g @ js ''.md'' \<and> g \<noteq> [] \<and>
                 \<not> endsWith g (js ''.md'') \<and> decodeURIComponent url2 = Inr (0x2F # g) \<longrightarrow>
            handler exampleDir url2 =
              Inr \<lparr>statusCode = 200, contentType = js ''text/html'',
                   contentLength =
                     length (utf8Encode
                       (replaceString
                          (replaceString HTML_TEMPLATE (js ''TITLE'') (escapeHtml g))
                          (js ''CONTENT'') (escapeHtml (js ''secret'')))),
                   accessControlAllowOrigin = js ''*'',
                   payload =
                     utf8Encode
                       (replaceString
                          (replaceString HTML_TEMPLATE (js ''TITLE'') (escapeHtml g))
                          (js ''CONTENT'') (escapeHtml (js ''secret'')))\<rparr>"
    by (rule conjunct2 [THEN conjunct2])
  then have "handler exampleDir (js ''/.hidden'') =
              Inr \<lparr>statusCode = 200, contentType = js ''text/html'',
                   contentLength =
                     length (utf8Encode
                       (replaceString
                          (replaceString HTML_TEMPLATE (js ''TITLE'') (escapeHtml (js ''.hidden'')))
                          (js ''CONTENT'') (escapeHtml (js ''secret'')))),
                   accessControlAllowOrigin = js ''*'',
                   payload =
                     utf8Encode
                       (replaceString
                          (replaceString HTML_TEMPLATE (js ''TITLE'') (escapeHtml (js ''.hidden'')))
                          (js ''CONTENT'') (escapeHtml (js ''secret'')))\<rparr>"
    using 6 by (elim allE [of _ "js ''.hidden''"] allE [of _ "js ''/.hidden''"]) (rule mp)
  then have c': "handler exampleDir (js ''/.hidden'') =
     Inr \<lparr>statusCode = 200, contentType = js ''text/html'',
          contentLength =
            length (utf8Encode (join [0x0A] (map js (htmlTemplateLines
                     [5 := ''<title>.hidden</title>'',
                      35 := ''<pre id=\"content\">secret</pre>''])))),
          accessControlAllowOrigin = js ''*'',
          payload =
            utf8Encode (join [0x0A] (map js (htmlTemplateLines
                     [5 := ''<title>.hidden</title>'',
                      35 := ''<pre id=\"content\">secret</pre>''])))\<rparr>"
    by (simp only: t c hidden_title hidden_content)
  show ?thesis
    using 1 2 3 4 5 a b c' by (simp only: simp_thms)
qed

subsection \<open>The index does not escape the file names\<close>

text \<open>
  C10. The claim is that every HTML metacharacter of a listed file name is
  in the index page as it is. The entries are passed as the replacement text
  of \<^verbatim>\<open>INDEX_TEMPLATE.replace("ENTRIES", ...)\<close>, where \<^verbatim>\<open>$&\<close> stands for the
  matched text: for the listed file \<^verbatim>\<open>$&.md\<close>, whose name has an ampersand,
  line 37 of the page has \<^verbatim>\<open>ENTRIES\<close> in the place of the label, the slug and
  the file name, and no ampersand is in the page.
\<close>

theorem buildIndex_dollar_pattern:
  "listFiles dollarDir = [js ''$&.md''] \<and> 0x26 \<in> set (js ''$&.md'') \<and>
   buildIndex dollarDir =
     join [0x0A] (map js (indexTemplateLines
       [37 := ''<div class=\"session\">  <span class=\"session-name\">ENTRIES</span>  <span class=\"links\">    <a href=\"/ENTRIES\">view</a>    <a href=\"/ENTRIES.md\">raw</a>  </span></div>''])) \<and>
   0x26 \<notin> set (buildIndex dollarDir) \<and>
   indexTemplateLines ! 37 = ''ENTRIES''"
proof -
  have l: "listFiles dollarDir = [js ''$&.md'']"
    by (simp add: listFiles_def dollarDir_def endsWith_def startsWith_def js_def)
  have b: "buildIndex dollarDir =
             replaceString INDEX_TEMPLATE (js ''ENTRIES'') (indexEntry (js ''$&.md''))"
    unfolding buildIndex_def Let_def l by simp
  from replace_ENTRIES [of "indexEntry (js ''$&.md'')"]
  have p: "buildIndex dollarDir =
     join [0x0A] (map js (indexTemplateLines
       [37 := ''<div class=\"session\">  <span class=\"session-name\">ENTRIES</span>  <span class=\"links\">    <a href=\"/ENTRIES\">view</a>    <a href=\"/ENTRIES.md\">raw</a>  </span></div>'']))"
  proof (elim exE)
    fix pre fol
    assume r: "replaceString INDEX_TEMPLATE (js ''ENTRIES'') (indexEntry (js ''$&.md'')) =
         join [0x0A] ((map js indexTemplateLines)
           [37 := getSubstitution (js ''ENTRIES'') pre fol (indexEntry (js ''$&.md''))])"
    have "buildIndex dollarDir =
         join [0x0A] ((map js indexTemplateLines)
           [37 := getSubstitution (js ''ENTRIES'') pre fol (indexEntry (js ''$&.md''))])"
      unfolding b by (rule r)
    also have "\<dots> =
         join [0x0A] ((map js indexTemplateLines)
           [37 := js ''<div class=\"session\">  <span class=\"session-name\">ENTRIES</span>  <span class=\"links\">    <a href=\"/ENTRIES\">view</a>    <a href=\"/ENTRIES.md\">raw</a>  </span></div>''])"
      by (simp only: indexEntry_dollar substitution_dollar)
    also have "\<dots> =
         join [0x0A] (map js (indexTemplateLines
           [37 := ''<div class=\"session\">  <span class=\"session-name\">ENTRIES</span>  <span class=\"links\">    <a href=\"/ENTRIES\">view</a>    <a href=\"/ENTRIES.md\">raw</a>  </span></div>'']))"
      by (simp only: map_update)
    finally show ?thesis .
  qed
  have e: "0x26 \<notin> set (js ''<div class=\"session\">  <span class=\"session-name\">ENTRIES</span>  <span class=\"links\">    <a href=\"/ENTRIES\">view</a>    <a href=\"/ENTRIES.md\">raw</a>  </span></div>'')"
    by (simp add: js_def)
  have n: "0x26 \<notin> set (buildIndex dollarDir)"
    unfolding p map_update
    by (rule not_in_join, simp, rule not_in_update [OF index_no_amp e])
  have a: "0x26 \<in> set (js ''$&.md'')" by (simp add: js_def)
  have i: "indexTemplateLines ! 37 = ''ENTRIES''" by (simp add: index_line)
  show ?thesis using l a p n i by (simp only: simp_thms)
qed

end
